theory Spec2Isabelle
  imports Complex_Main
begin

section \<open>Data model\<close>

text \<open>
  A page identifier is the number stored in a holder's \<^verbatim>\<open>data-page\<close> attribute and
  read back with \<^verbatim>\<open>Number(...)\<close>.  Byte buffers are lists of byte values.
\<close>

type_synonym page = nat
type_synonym bytes = "nat list"

text \<open>
  The text of an \<^verbatim>\<open>Error\<close>, or of a \<^verbatim>\<open>.pdf-error\<close> element.  The template strings of
  the source are kept as constructors, so that no number has to be printed:
  \<^item> \<open>Text m\<close>: a message chosen outside this code (PDF.js, fetch); \<open>Text []\<close> is a
    missing or empty message, the falsy case of \<^verbatim>\<open>e?.message || ...\<close>;
  \<^item> \<open>TooSmallMsg n m\<close>: \<^verbatim>\<open>PDF is too small: ${n} bytes (min ${m})\<close>;
  \<^item> \<open>HttpMsg c\<close>: \<^verbatim>\<open>Failed to fetch PDF (HTTP ${c})\<close>;
  \<^item> \<open>UnsupportedMsg\<close>: \<^verbatim>\<open>Unsupported PDF source type.\<close>;
  \<^item> \<open>RenderDefaultMsg p\<close>: \<^verbatim>\<open>Failed to render page ${p}\<close>;
  \<^item> \<open>LoadDefaultMsg\<close>: \<^verbatim>\<open>Failed to load PDF.\<close>;
  \<^item> \<open>InvalidTokenMsg t\<close>: the message of the exception that \<^verbatim>\<open>classList.add(t)\<close> throws
    for a \<open>t\<close> that is no class token (it is not empty).
\<close>

datatype message =
    Text string
  | TooSmallMsg int int
  | HttpMsg nat
  | UnsupportedMsg
  | RenderDefaultMsg page
  | LoadDefaultMsg
  | InvalidTokenMsg string

type_synonym error = message

text \<open>\<^verbatim>\<open>m || d\<close> on a message: the default replaces a missing or empty message.\<close>

definition or_default :: "message \<Rightarrow> message \<Rightarrow> message" where
  "or_default m d = (if m = Text [] then d else m)"

text \<open>
  A viewport of the library, a canvas element (its \<^verbatim>\<open>width\<close> and \<^verbatim>\<open>height\<close> are unsigned
  integers, its \<^verbatim>\<open>max-width\<close> is always 100%), and what the \<^verbatim>\<open>.pdf-page-content\<close> element
  of a holder shows: nothing yet, the canvas or an inline \<^verbatim>\<open>.pdf-error\<close> element.
\<close>

record viewport =
  width :: real
  height :: real

record canvas =
  canvas_width :: nat
  canvas_height :: nat
  canvas_class :: string

datatype content = Blank | CanvasIn canvas | ErrorBox message

text \<open>
  A \<^verbatim>\<open>.pdf-page-holder\<close> element: its \<^verbatim>\<open>data-page\<close>, the \<^verbatim>\<open>padding-top\<close> of its sizer in
  percent, its content, and whether it carries the class \<^verbatim>\<open>pdf-page-rendered\<close>.
\<close>

record holder =
  data_page :: page
  paddingTop :: real
  content :: content
  rendered :: bool

text \<open>
  The container element, as far as the code reads or writes it: the number of
  \<^verbatim>\<open>.pdf-loader\<close> elements, the canvases appended to the container itself (the
  variants without placeholders), the holders in document order, and the
  \<^verbatim>\<open>.pdf-error\<close> elements appended to the container itself.
\<close>

record container =
  loaders :: nat
  canvases :: "canvas list"
  holders :: "holder list"
  errors :: "message list"

text \<open>
  The closure state of one successful \<^verbatim>\<open>renderPDFLazy\<close> call, on top of its container:
  the options the scheduler reads, \<^verbatim>\<open>inFlight\<close>, \<^verbatim>\<open>queue\<close> and \<^verbatim>\<open>active\<close>.  Two fields are
  bookkeeping of the model: \<open>settled\<close> counts the promises returned by \<^verbatim>\<open>renderPage\<close>
  that are resolved while their \<^verbatim>\<open>.finally\<close> callback has not run yet, and \<open>started\<close>
  lists, in order, the pages for which \<^verbatim>\<open>renderPage\<close> went past its guard and called
  into the library.
\<close>

record sched = container +
  concurrent :: nat
  className :: string
  inFlight :: "page set"
  queue :: "page list"
  active :: nat
  settled :: nat
  started :: "page list"

text \<open>How the library calls made for one page end: the page's viewport was drawn, or
  an error was thrown (by \<^verbatim>\<open>getPage\<close> or by \<^verbatim>\<open>render\<close>, or on the way between them by
  \<^verbatim>\<open>classList.add\<close>) with the given message.\<close>

datatype outcome = Rendered viewport | Failed string

text \<open>One \<^verbatim>\<open>IntersectionObserverEntry\<close>: the page of its target holder and
  \<^verbatim>\<open>isIntersecting\<close>.\<close>

datatype entry = Entry page bool

text \<open>
  What can happen after \<^verbatim>\<open>renderPDFLazy\<close> has returned: the observer calls back with a
  batch of entries, the library call of an in-flight page ends, or the \<^verbatim>\<open>.finally\<close>
  callback of a resolved \<^verbatim>\<open>renderPage\<close> promise runs.
\<close>

datatype event = Intersect "entry list" | Settle page outcome | Finally

section \<open>The lazy page scheduler\<close>

text \<open>
  \<^verbatim>\<open>canvas.classList.add(className)\<close> throws for a class name that is empty or holds
  ASCII whitespace (tab, line feed, form feed, carriage return, space), and adds the
  class otherwise.
\<close>

definition ascii_whitespace :: "char \<Rightarrow> bool" where
  "ascii_whitespace ch \<longleftrightarrow> ch \<in> set [CHR 0x09, CHR 0x0A, CHR 0x0C, CHR 0x0D, CHR 0x20]"

definition valid_token :: "string \<Rightarrow> bool" where
  "valid_token t \<longleftrightarrow> t \<noteq> [] \<and> list_all (\<lambda>ch. \<not> ascii_whitespace ch) t"

text \<open>
  Assigning a number to \<^verbatim>\<open>canvas.width\<close> or \<^verbatim>\<open>canvas.height\<close>: the number is cut to its
  integer part and taken modulo 4294967296, as for every unsigned long attribute; a
  result above 2147483647 is replaced by the default of the attribute (300 for the
  width, 150 for the height).
\<close>

definition integer_part :: "real \<Rightarrow> int" where
  "integer_part x = (if x < 0 then - \<lfloor>- x\<rfloor> else \<lfloor>x\<rfloor>)"

definition canvas_size :: "real \<Rightarrow> nat \<Rightarrow> nat" where
  "canvas_size x dflt =
     (if integer_part x mod 4294967296 \<le> 2147483647
      then nat (integer_part x mod 4294967296) else dflt)"

text \<open>The canvas the code builds for a viewport.\<close>

definition make_canvas :: "viewport \<Rightarrow> string \<Rightarrow> canvas" where
  "make_canvas v cls =
     \<lparr>canvas_width = canvas_size (width v) 300, canvas_height = canvas_size (height v) 150,
      canvas_class = cls\<rparr>"

text \<open>\<^verbatim>\<open>removeLoader\<close>: the first \<^verbatim>\<open>.pdf-loader\<close> element, if there is one, is removed.\<close>

definition removeLoader :: "('a container_scheme) \<Rightarrow> ('a container_scheme)" where
  "removeLoader c = c\<lparr>loaders := loaders c - 1\<rparr>"

text \<open>\<^verbatim>\<open>container.querySelector('.pdf-page-holder[data-page="p"]')\<close>: the first match.\<close>

definition find_holder :: "page \<Rightarrow> holder list \<Rightarrow> holder option" where
  "find_holder p hs = find (\<lambda>h. data_page h = p) hs"

text \<open>Changing the element that \<open>find_holder\<close> returns, in place.\<close>

fun update_holder :: "page \<Rightarrow> (holder \<Rightarrow> holder) \<Rightarrow> holder list \<Rightarrow> holder list" where
  "update_holder p f [] = []"
| "update_holder p f (h # hs) =
     (if data_page h = p then f h # hs else h # update_holder p f hs)"

text \<open>
  \<^verbatim>\<open>renderPage\<close> up to its first \<^verbatim>\<open>await\<close>.  With the page already in flight it returns
  at once, so its promise is resolved and the \<^verbatim>\<open>.finally\<close> callback is due; otherwise
  the page joins \<^verbatim>\<open>inFlight\<close> and the library is called.
\<close>

definition renderPage_begin :: "page \<Rightarrow> sched \<Rightarrow> sched" where
  "renderPage_begin p s =
     (if p \<in> inFlight s then s\<lparr>settled := settled s + 1\<rparr>
      else s\<lparr>inFlight := insert p (inFlight s), started := started s @ [p]\<rparr>)"

text \<open>
  \<^verbatim>\<open>renderPage\<close> from the end of the library call: the \<^verbatim>\<open>try\<close> branch puts the canvas
  into the holder and marks it rendered, the \<^verbatim>\<open>catch\<close> branch puts the error there,
  each only \<^verbatim>\<open>if (holder)\<close>; \<^verbatim>\<open>finally\<close> deletes the page from \<^verbatim>\<open>inFlight\<close>.  The promise
  is resolved then.  A page that is not in flight has no library call to end.
\<close>

definition renderPage_settle :: "page \<Rightarrow> outcome \<Rightarrow> sched \<Rightarrow> sched" where
  "renderPage_settle p out s =
     (if p \<notin> inFlight s then s
      else s\<lparr>holders :=
               (case out of
                  Rendered v \<Rightarrow>
                    update_holder p
                      (\<lambda>x. x\<lparr>content := CanvasIn (make_canvas v (className s)), rendered := True\<rparr>)
                      (holders s)
                | Failed m \<Rightarrow>
                    update_holder p
                      (\<lambda>x. x\<lparr>content := ErrorBox (or_default (Text m) (RenderDefaultMsg p))\<rparr>)
                      (holders s)),
             inFlight := inFlight s - {p},
             settled := settled s + 1\<rparr>)"

text \<open>
  \<^verbatim>\<open>pump\<close>: while a slot is free and the queue is not empty, shift the head; a falsy
  head (page 0) ends the loop; otherwise count the page as active and start it.
\<close>

function pump :: "sched \<Rightarrow> sched" where
  "pump s =
     (if active s < concurrent s \<and> queue s \<noteq> [] then
        (if hd (queue s) = 0 then s\<lparr>queue := tl (queue s)\<rparr>
         else pump (renderPage_begin (hd (queue s))
                      (s\<lparr>queue := tl (queue s), active := active s + 1\<rparr>)))
      else s)"
  by pat_completeness auto
termination
  by (relation "measure (\<lambda>s. length (queue s))") (auto simp: renderPage_begin_def)

declare pump.simps [simp del]

definition enqueue :: "page \<Rightarrow> sched \<Rightarrow> sched" where
  "enqueue p s =
     (if p \<notin> set (queue s) \<and> p \<notin> inFlight s then pump (s\<lparr>queue := queue s @ [p]\<rparr>)
      else s)"

text \<open>
  The observer callback.  The target of an entry is an observed holder; it is found
  here by its page number, which names one holder as long as the page numbers of the
  holders are distinct, as those built by \<^verbatim>\<open>renderPDFLazy\<close> are.  The observer was given
  the holders of the container, so an entry for a page without holder does not occur
  and is skipped.
\<close>

fun intersection_callback :: "entry list \<Rightarrow> sched \<Rightarrow> sched" where
  "intersection_callback [] s = s"
| "intersection_callback (Entry p isIntersecting # es) s =
     intersection_callback es
       (if isIntersecting then
          (case find_holder p (holders s) of
             None \<Rightarrow> s
           | Some h \<Rightarrow> if \<not> rendered h then enqueue p s else s)
        else s)"

text \<open>The callback given to \<^verbatim>\<open>.finally\<close>; it runs once for each resolved promise.\<close>

definition finally_callback :: "sched \<Rightarrow> sched" where
  "finally_callback s =
     (if settled s = 0 then s
      else pump (s\<lparr>settled := settled s - 1, active := active s - 1\<rparr>))"

fun step :: "event \<Rightarrow> sched \<Rightarrow> sched" where
  "step (Intersect es) s = intersection_callback es s"
| "step (Settle p out) s = renderPage_settle p out s"
| "step Finally s = finally_callback s"

fun run :: "event list \<Rightarrow> sched \<Rightarrow> sched" where
  "run [] s = s"
| "run (e # es) s = run es (step e s)"

text \<open>A proximity notification for one page.\<close>

abbreviation Notify :: "page \<Rightarrow> event" where
  "Notify p \<equiv> Intersect [Entry p True]"

text \<open>
  The placeholders \<^verbatim>\<open>renderPDFLazy\<close> builds for an \<open>n\<close>-page document, all with the same
  sizer padding, and the scheduler as it stands when \<^verbatim>\<open>renderPDFLazy\<close> returns its handle.
\<close>

definition build_holders :: "real \<Rightarrow> nat \<Rightarrow> holder list" where
  "build_holders aspectRatio n =
     map (\<lambda>i. \<lparr>data_page = i, paddingTop = aspectRatio * 100, content = Blank,
               rendered = False\<rparr>) [1..<Suc n]"

definition new_sched :: "nat \<Rightarrow> string \<Rightarrow> container \<Rightarrow> sched" where
  "new_sched k cls c =
     \<lparr>loaders = loaders c, canvases = canvases c, holders = holders c, errors = errors c,
      concurrent = k, className = cls, inFlight = {}, queue = [], active = 0,
      settled = 0, started = []\<rparr>"

section \<open>Sources, the network and the library\<close>

text \<open>
  A fetched response: \<^verbatim>\<open>res.ok\<close>, \<^verbatim>\<open>res.status\<close>, the value of
  \<^verbatim>\<open>Number(res.headers.get("content-length"))\<close> (\<open>None\<close> is \<^verbatim>\<open>NaN\<close>; a missing header
  gives \<^verbatim>\<open>Number(null)\<close>, that is \<open>Some 0\<close>), and what \<^verbatim>\<open>res.arrayBuffer()\<close> settles to.
  Sizes and the minimum are integers here.
\<close>

record response =
  ok :: bool
  status :: nat
  content_length :: "int option"
  body :: "error + bytes"

text \<open>A typed-array or \<^verbatim>\<open>DataView\<close> view: the underlying buffer and the window on it.\<close>

record view =
  buffer :: bytes
  byteOffset :: nat
  byteLength :: nat

datatype source = Url string | Blob bytes | ArrayBuffer bytes | View view | Other

text \<open>
  An open document: \<^verbatim>\<open>numPages\<close>, and \<^verbatim>\<open>getPage\<close>, whose page object is represented by
  its \<^verbatim>\<open>getViewport\<close> as a function of the scale.
\<close>

record pdfdoc =
  numPages :: nat
  getPage :: "page \<Rightarrow> error + (real \<Rightarrow> viewport)"

text \<open>
  What the code is given from outside: \<^verbatim>\<open>fetch\<close>, \<^verbatim>\<open>pdfjsLib.getDocument\<close> on bytes, and
  whether the \<^verbatim>\<open>IntersectionObserver\<close> constructor accepts a root margin (\<open>Some e\<close> is
  the error it throws).
\<close>

record env =
  fetch :: "string \<Rightarrow> error + response"
  getDocument :: "bytes \<Rightarrow> error + pdfdoc"
  observer_error :: "string \<Rightarrow> error option"

text \<open>The calls that leave the code, in order.\<close>

datatype effect =
    Fetch string
  | ReadBody
  | GetDocument bytes
  | GetPage page
  | Observe "page list"
  | RemoveLoader

record options =
  opt_scale :: real
  opt_className :: string
  opt_minBytes :: int
  opt_rootMargin :: string
  opt_concurrent :: nat

definition default_options :: options where
  "default_options =
     \<lparr>opt_scale = 1.5, opt_className = ''pdf-sheet'', opt_minBytes = 5 * 1024,
      opt_rootMargin = ''600px'', opt_concurrent = 2\<rparr>"

section \<open>The loader of the lazy variant\<close>

text \<open>\<^verbatim>\<open>res.arrayBuffer()\<close> followed by the check of the length that was read.\<close>

definition read_checked :: "int \<Rightarrow> response \<Rightarrow> error + bytes" where
  "read_checked minBytes res =
     (case body res of
        Inl e \<Rightarrow> Inl e
      | Inr buf \<Rightarrow>
          if int (length buf) < minBytes then Inl (TooSmallMsg (int (length buf)) minBytes)
          else Inr buf)"

text \<open>
  \<^verbatim>\<open>toArrayBufferWithSize\<close> of \<^verbatim>\<open>renderPDFLazy\<close>, with the calls it makes.  The branches
  are tried in the order of the source.
\<close>

fun toArrayBufferWithSize ::
  "(string \<Rightarrow> error + response) \<Rightarrow> int \<Rightarrow> source \<Rightarrow> effect list \<times> (error + bytes)" where
  "toArrayBufferWithSize fetcher minBytes (Url u) =
     (case fetcher u of
        Inl e \<Rightarrow> ([Fetch u], Inl e)
      | Inr res \<Rightarrow>
          if \<not> ok res then ([Fetch u], Inl (HttpMsg (status res)))
          else
            (case content_length res of
               None \<Rightarrow> ([Fetch u, ReadBody], read_checked minBytes res)
             | Some len \<Rightarrow>
                 if 0 < len \<and> len < minBytes then ([Fetch u], Inl (TooSmallMsg len minBytes))
                 else ([Fetch u, ReadBody], read_checked minBytes res)))"
| "toArrayBufferWithSize fetcher minBytes (Blob b) =
     (if int (length b) < minBytes then ([], Inl (TooSmallMsg (int (length b)) minBytes))
      else ([], Inr b))"
| "toArrayBufferWithSize fetcher minBytes (ArrayBuffer b) =
     (if int (length b) < minBytes then ([], Inl (TooSmallMsg (int (length b)) minBytes))
      else ([], Inr b))"
| "toArrayBufferWithSize fetcher minBytes (View v) =
     (if int (byteLength v) < minBytes then ([], Inl (TooSmallMsg (int (byteLength v)) minBytes))
      else ([], Inr (buffer v)))"
| "toArrayBufferWithSize fetcher minBytes Other = ([], Inl UnsupportedMsg)"

section \<open>renderPDFLazy\<close>

text \<open>
  What the promise of \<^verbatim>\<open>renderPDFLazy\<close> resolves to, with the state left behind:
  \<^verbatim>\<open>undefined\<close> and the container, or the object with \<^verbatim>\<open>disconnect\<close> and the scheduler
  that stays alive behind it.
\<close>

datatype resolved = Undefined container | Teardown sched

text \<open>The \<^verbatim>\<open>catch\<close> block followed by \<^verbatim>\<open>finally\<close>.\<close>

definition fatal :: "error \<Rightarrow> container \<Rightarrow> resolved" where
  "fatal e c =
     Undefined (removeLoader (c\<lparr>errors := errors c @ [or_default e LoadDefaultMsg]\<rparr>))"

text \<open>
  The \<^verbatim>\<open>try\<close> block in the order of the source: bytes, document, first page, aspect
  ratio, one holder for each page, \<^verbatim>\<open>removeLoader\<close>, observer; \<^verbatim>\<open>finally\<close> calls
  \<^verbatim>\<open>removeLoader\<close> once more.  The division is the one of the reals: for a viewport
  of width 0 JavaScript has \<^verbatim>\<open>Infinity\<close> or \<^verbatim>\<open>NaN\<close> where this model has 0.
\<close>

definition renderPDFLazy ::
  "env \<Rightarrow> options \<Rightarrow> source \<Rightarrow> container \<Rightarrow> effect list \<times> resolved" where
  "renderPDFLazy e opts src c =
     (case toArrayBufferWithSize (fetch e) (opt_minBytes opts) src of
        (fx, Inl err) \<Rightarrow> (fx, fatal err c)
      | (fx, Inr data) \<Rightarrow>
          (case getDocument e data of
             Inl err \<Rightarrow> (fx @ [GetDocument data], fatal err c)
           | Inr pdf \<Rightarrow>
               (case getPage pdf 1 of
                  Inl err \<Rightarrow> (fx @ [GetDocument data, GetPage 1], fatal err c)
                | Inr firstPage \<Rightarrow>
                    (let firstViewport = firstPage (opt_scale opts);
                         aspectRatio = height firstViewport / width firstViewport;
                         c1 = removeLoader
                                (c\<lparr>holders := holders c @ build_holders aspectRatio (numPages pdf)\<rparr>)
                     in case observer_error e (opt_rootMargin opts) of
                          Some err \<Rightarrow> (fx @ [GetDocument data, GetPage 1], fatal err c1)
                        | None \<Rightarrow>
                            (fx @ [GetDocument data, GetPage 1,
                                   Observe (map data_page (holders c1))],
                             Teardown (new_sched (opt_concurrent opts) (opt_className opts)
                                         (removeLoader c1)))))))"

section \<open>The variant of pdf-preview.js\<close>

text \<open>
  Its \<^verbatim>\<open>toArrayBufferWithSize\<close> removes the loader first and returns the buffer with a
  size.  With a positive length header the body is read without a second check.
\<close>

definition read_measured :: "int \<Rightarrow> response \<Rightarrow> error + bytes \<times> nat" where
  "read_measured minBytes res =
     (case read_checked minBytes res of
        Inl e \<Rightarrow> Inl e
      | Inr buf \<Rightarrow> Inr (buf, length buf))"

fun toArrayBufferWithSize_preview ::
  "(string \<Rightarrow> error + response) \<Rightarrow> int \<Rightarrow> source \<Rightarrow> effect list \<times> (error + bytes \<times> nat)" where
  "toArrayBufferWithSize_preview fetcher minBytes (Url u) =
     (case fetcher u of
        Inl e \<Rightarrow> ([RemoveLoader, Fetch u], Inl e)
      | Inr res \<Rightarrow>
          if \<not> ok res then ([RemoveLoader, Fetch u], Inl (HttpMsg (status res)))
          else
            (case content_length res of
               None \<Rightarrow> ([RemoveLoader, Fetch u, ReadBody], read_measured minBytes res)
             | Some headerLen \<Rightarrow>
                 if 0 < headerLen then
                   (if headerLen < minBytes
                    then ([RemoveLoader, Fetch u], Inl (TooSmallMsg headerLen minBytes))
                    else ([RemoveLoader, Fetch u, ReadBody],
                          case body res of
                            Inl e \<Rightarrow> Inl e
                          | Inr buf \<Rightarrow> Inr (buf, length buf)))
                 else ([RemoveLoader, Fetch u, ReadBody], read_measured minBytes res)))"
| "toArrayBufferWithSize_preview fetcher minBytes (Blob b) =
     (if int (length b) < minBytes
      then ([RemoveLoader], Inl (TooSmallMsg (int (length b)) minBytes))
      else ([RemoveLoader], Inr (b, length b)))"
| "toArrayBufferWithSize_preview fetcher minBytes (ArrayBuffer b) =
     (if int (length b) < minBytes
      then ([RemoveLoader], Inl (TooSmallMsg (int (length b)) minBytes))
      else ([RemoveLoader], Inr (b, length b)))"
| "toArrayBufferWithSize_preview fetcher minBytes (View v) =
     (if int (byteLength v) < minBytes
      then ([RemoveLoader], Inl (TooSmallMsg (int (byteLength v)) minBytes))
      else ([RemoveLoader], Inr (buffer v, byteLength v)))"
| "toArrayBufferWithSize_preview fetcher minBytes Other = ([RemoveLoader], Inl UnsupportedMsg)"

text \<open>
  The sequential loop over the pages: each page is fetched, its canvas is built and
  gets the class, the page is drawn and the canvas appended before the next page
  starts; the first error leaves the loop with the canvases appended so far.
  \<open>draw p\<close> is the error with which \<^verbatim>\<open>page.render(...).promise\<close> rejects, if any.
\<close>

fun render_each ::
  "pdfdoc \<Rightarrow> real \<Rightarrow> string \<Rightarrow> (page \<Rightarrow> error option) \<Rightarrow> page list \<Rightarrow> canvas list \<Rightarrow>
   canvas list \<times> error option" where
  "render_each pdf scale cls draw [] acc = (acc, None)"
| "render_each pdf scale cls draw (pageNum # rest) acc =
     (case getPage pdf pageNum of
        Inl e \<Rightarrow> (acc, Some e)
      | Inr pg \<Rightarrow>
          if \<not> valid_token cls then (acc, Some (InvalidTokenMsg cls))
          else
            (case draw pageNum of
               Some e \<Rightarrow> (acc, Some e)
             | None \<Rightarrow> render_each pdf scale cls draw rest (acc @ [make_canvas (pg scale) cls])))"

definition renderPDF_preview ::
  "env \<Rightarrow> (page \<Rightarrow> error option) \<Rightarrow> options \<Rightarrow> source \<Rightarrow> container \<Rightarrow>
   effect list \<times> container" where
  "renderPDF_preview e draw opts src c =
     (case toArrayBufferWithSize_preview (fetch e) (opt_minBytes opts) src of
        (fx, Inl err) \<Rightarrow>
          (fx, (removeLoader c)\<lparr>errors := errors c @ [or_default err LoadDefaultMsg]\<rparr>)
      | (fx, Inr (buf, n)) \<Rightarrow>
          (case getDocument e buf of
             Inl err \<Rightarrow>
               (fx @ [GetDocument buf],
                (removeLoader c)\<lparr>errors := errors c @ [or_default err LoadDefaultMsg]\<rparr>)
           | Inr pdf \<Rightarrow>
               (case render_each pdf (opt_scale opts) (opt_className opts) draw
                       [1..<Suc (numPages pdf)] (canvases c) of
                  (cs, None) \<Rightarrow> (fx @ [GetDocument buf], (removeLoader c)\<lparr>canvases := cs\<rparr>)
                | (cs, Some err) \<Rightarrow>
                    (fx @ [GetDocument buf],
                     (removeLoader c)\<lparr>canvases := cs,
                        errors := errors c @ [or_default err LoadDefaultMsg]\<rparr>))))"

section \<open>The parallel variant\<close>

text \<open>
  \<^verbatim>\<open>Promise.all\<close> over \<open>n\<close> promises, as the language defines it: a list of values with
  one slot for each index, the count of elements still missing, the indices whose
  resolve function has been called, and the settlement of the combined promise once
  it has one (\<open>Inl\<close> rejected, \<open>Inr\<close> fulfilled with the values in index order).
\<close>

record 'a promise_all =
  slots :: "'a option list"
  remaining :: nat
  called :: "nat set"
  settlement :: "(error + 'a list) option"

definition promise_all_new :: "nat \<Rightarrow> 'a promise_all" where
  "promise_all_new n =
     \<lparr>slots = replicate n None, remaining = n, called = {},
      settlement = (if n = 0 then Some (Inr []) else None)\<rparr>"

text \<open>
  The promise at index \<open>i\<close> settles with \<open>r\<close>.  A fulfilment stores the value in slot
  \<open>i\<close> and fulfils the combined promise when no element is missing; a rejection
  rejects the combined promise.  A settled promise stays as it is.
\<close>

definition promise_all_settle :: "nat \<Rightarrow> error + 'a \<Rightarrow> 'a promise_all \<Rightarrow> 'a promise_all" where
  "promise_all_settle i r st =
     (if i \<in> called st \<or> length (slots st) \<le> i then st
      else
        (case r of
           Inl e \<Rightarrow>
             st\<lparr>called := insert i (called st),
                settlement := (if settlement st = None then Some (Inl e) else settlement st)\<rparr>
         | Inr x \<Rightarrow>
             (let vs = (slots st)[i := Some x]
              in st\<lparr>slots := vs, remaining := remaining st - 1,
                    called := insert i (called st),
                    settlement :=
                      (if settlement st = None \<and> remaining st - 1 = 0
                       then Some (Inr (List.map_filter (\<lambda>v. v) vs))
                       else settlement st)\<rparr>)))"

text \<open>
  The async callback given to \<^verbatim>\<open>Array.from\<close> for index \<open>i\<close>: what its promise settles
  to.  The page is fetched, the canvas is built and gets the class, then the page is
  drawn; an error at any of these steps rejects the promise.  \<open>draw p\<close> is the error
  with which the drawing of page \<open>p\<close> rejects, if any.
\<close>

definition page_task ::
  "pdfdoc \<Rightarrow> real \<Rightarrow> string \<Rightarrow> (page \<Rightarrow> error option) \<Rightarrow> nat \<Rightarrow> error + canvas" where
  "page_task pdf scale cls draw i =
     (let pageNum = i + 1
      in case getPage pdf pageNum of
           Inl e \<Rightarrow> Inl e
         | Inr pg \<Rightarrow>
             if \<not> valid_token cls then Inl (InvalidTokenMsg cls)
             else
               (case draw pageNum of
                  Some e \<Rightarrow> Inl e
                | None \<Rightarrow> Inr (make_canvas (pg scale) cls)))"

text \<open>
  \<^verbatim>\<open>renderPDF\<close> of the parallel variant.  \<open>getDoc\<close> is \<^verbatim>\<open>pdfjsLib.getDocument\<close> on the
  source as given; \<open>order\<close> lists the indices of the page promises in the order in
  which they settle, as far as they have settled.  The result is \<open>None\<close> while the
  function still waits at \<^verbatim>\<open>await Promise.all\<close>, and the container it leaves otherwise.
\<close>

definition renderPDF_parallel ::
  "('src \<Rightarrow> error + pdfdoc) \<Rightarrow> (page \<Rightarrow> error option) \<Rightarrow> real \<Rightarrow> string \<Rightarrow> 'src \<Rightarrow>
   nat list \<Rightarrow> container \<Rightarrow> container option" where
  "renderPDF_parallel getDoc draw scale cls url order c =
     (case getDoc url of
        Inl err \<Rightarrow> Some (removeLoader c)
      | Inr pdf \<Rightarrow>
          (case settlement
                  (fold (\<lambda>i. promise_all_settle i (page_task pdf scale cls draw i)) order
                     (promise_all_new (numPages pdf))) of
             None \<Rightarrow> None
           | Some (Inl err) \<Rightarrow> Some (removeLoader c)
           | Some (Inr cs) \<Rightarrow> Some (removeLoader (c\<lparr>canvases := canvases c @ cs\<rparr>))))"

section \<open>Properties of scheduler states\<close>

text \<open>
  The counters agree: every active render is either in flight or resolved with its
  \<^verbatim>\<open>.finally\<close> callback still due, and \<^verbatim>\<open>active\<close> is within the limit.
\<close>

definition slots_ok :: "sched \<Rightarrow> bool" where
  "slots_ok s \<longleftrightarrow>
     finite (inFlight s) \<and> card (inFlight s) + settled s = active s \<and>
     active s \<le> concurrent s"

text \<open>
  The pages are in order: the queue has no duplicates and shares no page with
  \<^verbatim>\<open>inFlight\<close>; the holders have distinct page numbers, none of them 0; every pending
  page has a holder; a holder marked rendered is not pending.
\<close>

definition pages_ok :: "sched \<Rightarrow> bool" where
  "pages_ok s \<longleftrightarrow>
     distinct (queue s) \<and> set (queue s) \<inter> inFlight s = {} \<and>
     distinct (map data_page (holders s)) \<and> 0 \<notin> data_page ` set (holders s) \<and>
     set (queue s) \<union> inFlight s \<subseteq> data_page ` set (holders s) \<and>
     (\<forall>h \<in> set (holders s). rendered h \<longrightarrow>
        data_page h \<notin> set (queue s) \<and> data_page h \<notin> inFlight s)"

text \<open>An event that ends the library call of page \<open>p\<close>; an event that notifies the
  scheduler of page \<open>p\<close> coming near the viewport.\<close>

fun settles :: "page \<Rightarrow> event \<Rightarrow> bool" where
  "settles p (Settle q out) = (q = p)"
| "settles p (Intersect es) = False"
| "settles p Finally = False"

fun notifies :: "page \<Rightarrow> event \<Rightarrow> bool" where
  "notifies p (Intersect es) = (Entry p True \<in> set es)"
| "notifies p (Settle q out) = False"
| "notifies p Finally = False"

text \<open>Two scheduler states that differ at most in the holders of page \<open>p\<close>.\<close>

definition same_but :: "page \<Rightarrow> sched \<Rightarrow> sched \<Rightarrow> bool" where
  "same_but p s t \<longleftrightarrow>
     s\<lparr>holders := []\<rparr> = t\<lparr>holders := []\<rparr> \<and>
     filter (\<lambda>h. data_page h \<noteq> p) (holders s) = filter (\<lambda>h. data_page h \<noteq> p) (holders t)"

text \<open>
  The sizes a source reports to the loader: the size of a blob, the byte length of a
  buffer or of a view, and for a URL that was fetched with an ok status a positive
  length header and the length of the body.
\<close>

fun reported_sizes :: "(string \<Rightarrow> error + response) \<Rightarrow> source \<Rightarrow> int list" where
  "reported_sizes fetcher (Url u) =
     (case fetcher u of
        Inl e \<Rightarrow> []
      | Inr res \<Rightarrow>
          if \<not> ok res then []
          else
            (case content_length res of None \<Rightarrow> [] | Some len \<Rightarrow> if 0 < len then [len] else []) @
            (case body res of Inl e \<Rightarrow> [] | Inr buf \<Rightarrow> [int (length buf)]))"
| "reported_sizes fetcher (Blob b) = [int (length b)]"
| "reported_sizes fetcher (ArrayBuffer b) = [int (length b)]"
| "reported_sizes fetcher (View v) = [int (byteLength v)]"
| "reported_sizes fetcher Other = []"

text \<open>
  The number of renders started for page \<open>p\<close> so far, plus one while \<open>p\<close> is not in
  flight.
\<close>

definition tally :: "page \<Rightarrow> sched \<Rightarrow> nat" where
  "tally p s = count_list (started s) p + (if p \<in> inFlight s then 0 else 1)"

text \<open>A holder marked rendered shows a canvas.\<close>

fun is_canvas :: "content \<Rightarrow> bool" where
  "is_canvas (CanvasIn c) = True"
| "is_canvas Blank = False"
| "is_canvas (ErrorBox m) = False"

definition shown_ok :: "sched \<Rightarrow> bool" where
  "shown_ok s \<longleftrightarrow> (\<forall>h \<in> set (holders s). rendered h \<longrightarrow> is_canvas (content h))"

text \<open>
  Between two states \<open>s\<close> and \<open>t\<close>, the renders started are taken from the front of the
  queue, in its order, and pages are added to the queue at its end only: what was
  started since \<open>s\<close>, followed by the queue of \<open>t\<close>, is the queue of \<open>s\<close> followed by
  the pages enqueued since.
\<close>

abbreviation served :: "sched \<Rightarrow> sched \<Rightarrow> bool" where
  "served s t \<equiv>
     \<exists>adm new. started t = started s @ adm \<and> adm @ queue t = queue s @ new"

text \<open>
  The aspect ratio of page \<open>p\<close> itself at a scale: height over width of its viewport.
\<close>

definition own_ratio :: "pdfdoc \<Rightarrow> real \<Rightarrow> page \<Rightarrow> real option" where
  "own_ratio pdf scale p =
     (case getPage pdf p of
        Inl e \<Rightarrow> None
      | Inr pg \<Rightarrow> Some (height (pg scale) / width (pg scale)))"

section \<open>Example inputs\<close>

text \<open>
  The scheduler of the scenario in the specification: a document of five pages and a
  concurrency limit of two, all other options at their defaults, in a container that
  holds nothing but the five placeholders.
\<close>

definition five_pages :: sched where
  "five_pages =
     new_sched 2 ''pdf-sheet''
       \<lparr>loaders = 0, canvases = [], holders = build_holders (7 / 5) 5, errors = []\<rparr>"

text \<open>
  The five-page scheduler after pages 1 and 2 were notified, page 1 was rendered,
  page 2 failed, and both slots were released.
\<close>

definition after_two :: sched where
  "after_two =
     run [Notify 1, Notify 2, Settle 1 (Rendered \<lparr>width = 900, height = 1260\<rparr>),
          Settle 2 (Failed ''boom''), Finally, Finally] five_pages"

text \<open>The scenario: pages 3, 1, 5, 2, 4 come near the viewport, in this order.\<close>

definition triggered :: sched where
  "triggered = run (map Notify [3, 1, 5, 2, 4]) five_pages"

text \<open>
  An example document of two pages, the first upright (600 by 800), the second lying
  (800 by 600), and surroundings in which every buffer opens as this document and
  every URL answers 200 with 4096 bytes announced and sent.
\<close>

definition two_shapes :: pdfdoc where
  "two_shapes =
     \<lparr>numPages = 2,
      getPage = (\<lambda>p. if p = 1 then Inr (\<lambda>sc. \<lparr>width = 600 * sc, height = 800 * sc\<rparr>)
                     else if p = 2 then Inr (\<lambda>sc. \<lparr>width = 800 * sc, height = 600 * sc\<rparr>)
                     else Inl (Text ''Invalid page request.''))\<rparr>"

definition two_env :: env where
  "two_env =
     \<lparr>fetch = (\<lambda>u. Inr \<lparr>ok = True, status = 200, content_length = Some 4096,
                         body = Inr (replicate 4096 0)\<rparr>),
      getDocument = (\<lambda>b. Inr two_shapes),
      observer_error = (\<lambda>m. None)\<rparr>"

definition loading :: container where
  "loading = \<lparr>loaders = 1, canvases = [], holders = [], errors = []\<rparr>"

text \<open>A view of 5120 bytes at offset 100 of a buffer of 10000 bytes.\<close>

definition window :: view where
  "window = \<lparr>buffer = replicate 10000 0, byteOffset = 100, byteLength = 5120\<rparr>"

section \<open>Unfolding the pump loop\<close>

lemma pump_stop: "\<not> (active s < concurrent s \<and> queue s \<noteq> []) \<Longrightarrow> pump s = s"
  by (subst pump.simps) (simp only: if_False)

lemma pump_zero:
  "active s < concurrent s \<Longrightarrow> queue s = 0 # q \<Longrightarrow> pump s = s\<lparr>queue := q\<rparr>"
  by (subst pump.simps) simp

lemma pump_admit:
  "active s < concurrent s \<Longrightarrow> queue s = p # q \<Longrightarrow> p \<noteq> 0 \<Longrightarrow>
   pump s = pump (renderPage_begin p (s\<lparr>queue := q, active := active s + 1\<rparr>))"
  by (subst pump.simps) simp

lemma pump_cases [case_names stop zero admit]:
  assumes "\<not> (active s < concurrent s \<and> queue s \<noteq> []) \<Longrightarrow> pump s = s \<Longrightarrow> P"
    and "\<And>q. active s < concurrent s \<Longrightarrow> queue s = 0 # q \<Longrightarrow> pump s = s\<lparr>queue := q\<rparr> \<Longrightarrow> P"
    and "\<And>p q. active s < concurrent s \<Longrightarrow> queue s = p # q \<Longrightarrow> p \<noteq> 0 \<Longrightarrow>
           pump s = pump (renderPage_begin p (s\<lparr>queue := q, active := active s + 1\<rparr>)) \<Longrightarrow> P"
  shows P
proof (cases "active s < concurrent s \<and> queue s \<noteq> []")
  case False
  then show ?thesis using assms(1) pump_stop by blast
next
  case True
  then obtain p q where pq: "queue s = p # q" by (cases "queue s") auto
  show ?thesis
  proof (cases "p = 0")
    case True
    with pq \<open>active s < concurrent s \<and> queue s \<noteq> []\<close> show ?thesis
      using assms(2) pump_zero by blast
  next
    case False
    with pq True show ?thesis using assms(3) pump_admit by blast
  qed
qed

text \<open>
  Induction over the loop: a property \<open>Q\<close> of the state before and the state after
  holds when it holds where the loop stops and is carried through one admission.
\<close>

lemma pump_rule [consumes 1, case_names stop zero admit]:
  assumes "P s"
    and "\<And>s. P s \<Longrightarrow> \<not> (active s < concurrent s \<and> queue s \<noteq> []) \<Longrightarrow> Q s s"
    and "\<And>s q. P s \<Longrightarrow> active s < concurrent s \<Longrightarrow> queue s = 0 # q \<Longrightarrow> Q s (s\<lparr>queue := q\<rparr>)"
    and "\<And>s p q t. P s \<Longrightarrow> active s < concurrent s \<Longrightarrow> queue s = p # q \<Longrightarrow> p \<noteq> 0 \<Longrightarrow>
           P (renderPage_begin p (s\<lparr>queue := q, active := active s + 1\<rparr>)) \<and>
           (Q (renderPage_begin p (s\<lparr>queue := q, active := active s + 1\<rparr>)) t \<longrightarrow> Q s t)"
  shows "Q s (pump s)"
  using assms(1)
proof (induction s rule: pump.induct)
  case (1 s)
  show ?case
  proof (cases s rule: pump_cases)
    case stop
    with assms(2) "1.prems" show ?thesis by simp
  next
    case (zero q)
    with assms(3) "1.prems" show ?thesis by simp
  next
    case (admit p q)
    let ?s' = "renderPage_begin p (s\<lparr>queue := q, active := active s + 1\<rparr>)"
    from assms(4) [OF "1.prems" admit(1,2,3)]
    have P': "P ?s'" and Q': "\<And>t. Q ?s' t \<Longrightarrow> Q s t" by auto
    from admit have "Q ?s' (pump ?s')"
      using "1.IH" P' by simp
    with Q' admit(4) show ?thesis by simp
  qed
qed

section \<open>The concurrency bound\<close>

lemma slots_ok_pump: "slots_ok s \<Longrightarrow> slots_ok (pump s)"
proof (induction s rule: pump.induct)
  case (1 s)
  show ?case
  proof (cases s rule: pump_cases)
    case stop
    with "1.prems" show ?thesis by simp
  next
    case (zero q)
    with "1.prems" show ?thesis by (simp add: slots_ok_def)
  next
    case (admit p q)
    let ?s' = "renderPage_begin p (s\<lparr>queue := q, active := active s + 1\<rparr>)"
    from "1.prems" admit have "slots_ok ?s'"
      by (auto simp: slots_ok_def renderPage_begin_def)
    with "1.IH" admit show ?thesis by simp
  qed
qed

lemma slots_ok_enqueue: "slots_ok s \<Longrightarrow> slots_ok (enqueue p s)"
proof -
  assume a: "slots_ok s"
  then have "slots_ok (s\<lparr>queue := queue s @ [p]\<rparr>)" by (simp add: slots_ok_def)
  then show ?thesis using a by (simp add: enqueue_def slots_ok_pump)
qed

lemma slots_ok_callback: "slots_ok s \<Longrightarrow> slots_ok (intersection_callback es s)"
proof (induction es arbitrary: s)
  case Nil
  then show ?case by simp
next
  case (Cons e es)
  obtain p b where e: "e = Entry p b" by (cases e)
  show ?case unfolding e
    by (auto intro!: Cons.IH simp: Cons.prems slots_ok_enqueue split: option.splits)
qed

lemma slots_ok_settle: "slots_ok s \<Longrightarrow> slots_ok (renderPage_settle p out s)"
proof (cases "p \<in> inFlight s")
  case False
  assume "slots_ok s"
  with False show ?thesis by (simp add: renderPage_settle_def)
next
  case True
  assume a: "slots_ok s"
  with True have "card (inFlight s) > 0" by (auto simp: slots_ok_def card_gt_0_iff)
  with a True show ?thesis
    by (simp add: slots_ok_def renderPage_settle_def card_Diff_singleton)
qed

lemma slots_ok_finally: "slots_ok s \<Longrightarrow> slots_ok (finally_callback s)"
proof -
  assume a: "slots_ok s"
  show ?thesis
  proof (cases "settled s = 0")
    case True
    with a show ?thesis by (simp add: finally_callback_def)
  next
    case False
    with a have "slots_ok (s\<lparr>settled := settled s - 1, active := active s - 1\<rparr>)"
      by (auto simp: slots_ok_def)
    with False show ?thesis by (simp add: finally_callback_def slots_ok_pump)
  qed
qed

lemma slots_ok_step: "slots_ok s \<Longrightarrow> slots_ok (step e s)"
  by (cases e) (simp_all add: slots_ok_callback slots_ok_settle slots_ok_finally)

lemma slots_ok_run: "slots_ok s \<Longrightarrow> slots_ok (run es s)"
  by (induction es arbitrary: s) (simp_all add: slots_ok_step)

lemma slots_ok_new: "slots_ok (new_sched k cls c)"
  by (simp add: slots_ok_def new_sched_def)

text \<open>The limit itself is never written.\<close>

lemma concurrent_begin: "concurrent (renderPage_begin p s) = concurrent s"
  by (simp add: renderPage_begin_def)

lemma concurrent_pump: "concurrent (pump s) = concurrent s"
  by (rule pump_rule [where P = "\<lambda>s. True" and Q = "\<lambda>s t. concurrent t = concurrent s"])
    (simp_all add: concurrent_begin)

lemma concurrent_callback: "concurrent (intersection_callback es s) = concurrent s"
proof (induction es arbitrary: s)
  case Nil
  then show ?case by simp
next
  case (Cons e es)
  obtain p b where e: "e = Entry p b" by (cases e)
  show ?case unfolding e
    by (simp add: Cons.IH enqueue_def concurrent_pump split: option.splits)
qed

lemma concurrent_step: "concurrent (step e s) = concurrent s"
  by (cases e)
    (simp_all add: concurrent_callback renderPage_settle_def finally_callback_def concurrent_pump)

lemma concurrent_run: "concurrent (run es s) = concurrent s"
  by (induction es arbitrary: s) (simp_all add: concurrent_step)

text \<open>
  C1.  Whatever the concurrency limit \<open>k\<close> (so also for every \<open>k \<ge> 1\<close>), the
  container and the sequence of observer callbacks, render settlements and
  \<^verbatim>\<open>.finally\<close> callbacks: the in-flight set never has more pages than the \<^verbatim>\<open>active\<close>
  counter says, and the counter never exceeds \<open>k\<close>.
\<close>

theorem in_flight_bounded:
  "card (inFlight (run es (new_sched k cls c))) \<le> active (run es (new_sched k cls c)) \<and>
   active (run es (new_sched k cls c)) \<le> k \<and>
   finite (inFlight (run es (new_sched k cls c)))"
proof -
  have "slots_ok (run es (new_sched k cls c))"
    by (rule slots_ok_run [OF slots_ok_new])
  moreover have "concurrent (run es (new_sched k cls c)) = k"
    by (simp add: concurrent_run new_sched_def)
  ultimately show ?thesis by (auto simp: slots_ok_def)
qed

section \<open>Holders\<close>

lemma find_holder_Some: "find_holder p hs = Some h \<Longrightarrow> h \<in> set hs \<and> data_page h = p"
  unfolding find_holder_def by (induction hs) (auto split: if_splits)

lemma find_holder_None: "find_holder p hs = None \<longleftrightarrow> p \<notin> data_page ` set hs"
  unfolding find_holder_def by (induction hs) auto

lemma find_holder_unique:
  "distinct (map data_page hs) \<Longrightarrow> find_holder p hs = Some h \<Longrightarrow> h' \<in> set hs \<Longrightarrow>
   data_page h' = p \<Longrightarrow> h' = h"
  unfolding find_holder_def by (induction hs) (auto split: if_splits)

lemma pages_update_holder:
  "(\<And>x. data_page (f x) = data_page x) \<Longrightarrow>
   map data_page (update_holder p f hs) = map data_page hs"
  by (induction hs) auto

lemma set_update_holder:
  "h' \<in> set (update_holder p f hs) \<Longrightarrow>
   h' \<in> set hs \<or> (\<exists>h \<in> set hs. data_page h = p \<and> h' = f h)"
  by (induction hs) (auto split: if_splits)

lemma find_update_holder_other:
  "(\<And>x. data_page (f x) = data_page x) \<Longrightarrow> q \<noteq> p \<Longrightarrow>
   find_holder q (update_holder p f hs) = find_holder q hs"
  unfolding find_holder_def by (induction hs) auto

lemma find_update_holder_same:
  "(\<And>x. data_page (f x) = data_page x) \<Longrightarrow>
   find_holder p (update_holder p f hs) = map_option f (find_holder p hs)"
  unfolding find_holder_def by (induction hs) auto

section \<open>Pages stay in order\<close>

lemma pages_ok_pump: "pages_ok s \<Longrightarrow> pages_ok (pump s)"
proof (rule pump_rule [where P = pages_ok and Q = "\<lambda>s t. pages_ok t"])
  fix s q
  assume "pages_ok s" "queue s = 0 # q"
  then show "pages_ok (s\<lparr>queue := q\<rparr>)"
    by (auto simp: pages_ok_def)
next
  fix s p q t
  assume a: "pages_ok s" "queue s = p # q" "p \<noteq> 0"
  then have "p \<notin> inFlight s" by (auto simp: pages_ok_def)
  with a have "pages_ok (renderPage_begin p (s\<lparr>queue := q, active := active s + 1\<rparr>))"
    by (auto simp: pages_ok_def renderPage_begin_def)
  then show "pages_ok (renderPage_begin p (s\<lparr>queue := q, active := active s + 1\<rparr>)) \<and>
      (pages_ok t \<longrightarrow> pages_ok t)"
    by simp
qed simp_all

lemma pages_ok_enqueue:
  assumes "pages_ok s" "find_holder p (holders s) = Some h" "\<not> rendered h"
  shows "pages_ok (enqueue p s)"
proof (cases "p \<notin> set (queue s) \<and> p \<notin> inFlight s")
  case False
  with assms(1) show ?thesis by (auto simp: enqueue_def)
next
  case True
  from assms(2) have hp: "h \<in> set (holders s)" "data_page h = p"
    by (simp_all add: find_holder_Some)
  have "\<not> rendered h'" if "h' \<in> set (holders s)" "data_page h' = p" for h'
    using find_holder_unique [OF _ assms(2) that] assms(1,3) by (simp add: pages_ok_def)
  with assms(1) True hp have "pages_ok (s\<lparr>queue := queue s @ [p]\<rparr>)"
    by (auto simp: pages_ok_def)
  with True show ?thesis by (simp add: enqueue_def pages_ok_pump)
qed

lemma pages_ok_callback: "pages_ok s \<Longrightarrow> pages_ok (intersection_callback es s)"
proof (induction es arbitrary: s)
  case Nil
  then show ?case by simp
next
  case (Cons e es)
  obtain p b where e: "e = Entry p b" by (cases e)
  show ?case unfolding e
    by (auto intro!: Cons.IH simp: Cons.prems pages_ok_enqueue split: option.splits)
qed

lemma pages_ok_settle:
  assumes "pages_ok s"
  shows "pages_ok (renderPage_settle p out s)"
proof (cases "p \<in> inFlight s")
  case False
  with assms show ?thesis by (simp add: renderPage_settle_def)
next
  case True
  with assms have pq: "p \<notin> set (queue s)" by (auto simp: pages_ok_def)
  show ?thesis
  proof (cases out)
    case (Rendered v)
    let ?f = "\<lambda>x. x\<lparr>content := CanvasIn (make_canvas v (className s)), rendered := True\<rparr>"
    have st: "renderPage_settle p out s =
        s\<lparr>holders := update_holder p ?f (holders s), inFlight := inFlight s - {p},
          settled := settled s + 1\<rparr>"
      using True Rendered by (simp add: renderPage_settle_def)
    have pg: "map data_page (update_holder p ?f (holders s)) = map data_page (holders s)"
      by (rule pages_update_holder) simp
    then have im: "data_page ` set (update_holder p ?f (holders s)) = data_page ` set (holders s)"
      by (metis list.set_map)
    have rd: "data_page h' \<notin> set (queue s) \<and> data_page h' \<notin> inFlight s - {p}"
      if "h' \<in> set (update_holder p ?f (holders s))" "rendered h'" for h'
      using set_update_holder [OF that(1)] that(2) assms pq by (auto simp: pages_ok_def)
    from assms show ?thesis unfolding st
      using pg im rd by (auto simp: pages_ok_def)
  next
    case (Failed m)
    let ?f = "\<lambda>x. x\<lparr>content := ErrorBox (or_default (Text m) (RenderDefaultMsg p))\<rparr>"
    have st: "renderPage_settle p out s =
        s\<lparr>holders := update_holder p ?f (holders s), inFlight := inFlight s - {p},
          settled := settled s + 1\<rparr>"
      using True Failed by (simp add: renderPage_settle_def)
    have pg: "map data_page (update_holder p ?f (holders s)) = map data_page (holders s)"
      by (rule pages_update_holder) simp
    then have im: "data_page ` set (update_holder p ?f (holders s)) = data_page ` set (holders s)"
      by (metis list.set_map)
    have rd: "data_page h' \<notin> set (queue s) \<and> data_page h' \<notin> inFlight s - {p}"
      if "h' \<in> set (update_holder p ?f (holders s))" "rendered h'" for h'
      using set_update_holder [OF that(1)] that(2) assms pq by (auto simp: pages_ok_def)
    from assms show ?thesis unfolding st
      using pg im rd by (auto simp: pages_ok_def)
  qed
qed

lemma pages_ok_finally: "pages_ok s \<Longrightarrow> pages_ok (finally_callback s)"
proof -
  assume a: "pages_ok s"
  then have "pages_ok (s\<lparr>settled := settled s - 1, active := active s - 1\<rparr>)"
    by (simp add: pages_ok_def)
  with a show ?thesis by (simp add: finally_callback_def pages_ok_pump)
qed

lemma pages_ok_step: "pages_ok s \<Longrightarrow> pages_ok (step e s)"
  by (cases e) (simp_all add: pages_ok_callback pages_ok_settle pages_ok_finally)

lemma pages_ok_run: "pages_ok s \<Longrightarrow> pages_ok (run es s)"
  by (induction es arbitrary: s) (simp_all add: pages_ok_step)

lemma pages_build_holders: "map data_page (build_holders r n) = [1..<Suc n]"
  by (simp add: build_holders_def comp_def)

lemma pages_ok_new:
  "holders c = build_holders r n \<Longrightarrow> pages_ok (new_sched k cls c)"
  using pages_build_holders [of r n]
  by (auto simp: pages_ok_def new_sched_def build_holders_def)

section \<open>One render for each admission\<close>

text \<open>The tally of a page changes only when the render of that page settles.\<close>

lemma tally_begin: "tally p (renderPage_begin q s) = tally p s"
  by (auto simp: renderPage_begin_def tally_def)

lemma tally_pump: "tally p (pump s) = tally p s"
  by (rule pump_rule [where P = "\<lambda>s. True" and Q = "\<lambda>s t. tally p t = tally p s"])
    (simp_all add: tally_begin, simp_all add: tally_def)

lemma tally_enqueue: "tally p (enqueue q s) = tally p s"
proof -
  have "tally p (s\<lparr>queue := queue s @ [q]\<rparr>) = tally p s" by (simp add: tally_def)
  then show ?thesis by (simp add: enqueue_def tally_pump)
qed

lemma tally_callback: "tally p (intersection_callback es s) = tally p s"
proof (induction es arbitrary: s)
  case Nil
  then show ?case by simp
next
  case (Cons e es)
  obtain q b where e: "e = Entry q b" by (cases e)
  show ?case unfolding e
    by (simp add: Cons.IH tally_enqueue split: option.splits)
qed

lemma tally_finally: "tally p (finally_callback s) = tally p s"
proof -
  have "tally p (s\<lparr>settled := settled s - 1, active := active s - 1\<rparr>) = tally p s"
    by (simp add: tally_def)
  then show ?thesis by (simp add: finally_callback_def tally_pump)
qed

lemma tally_step: "\<not> settles p e \<Longrightarrow> tally p (step e s) = tally p s"
proof (cases e)
  case (Intersect es)
  then show ?thesis by (simp add: tally_callback)
next
  case (Settle q out)
  assume "\<not> settles p e"
  with Settle have "q \<noteq> p" by simp
  with Settle show ?thesis by (auto simp: renderPage_settle_def tally_def)
next
  case Finally
  then show ?thesis by (simp add: tally_finally)
qed

lemma tally_run: "\<forall>e \<in> set es. \<not> settles p e \<Longrightarrow> tally p (run es s) = tally p s"
  by (induction es arbitrary: s) (simp_all add: tally_step)

text \<open>A page leaves the in-flight set only when its render settles.\<close>

lemma stays_pump: "p \<in> inFlight s \<Longrightarrow> p \<in> inFlight (pump s)"
  by (rule pump_rule [where P = "\<lambda>s. p \<in> inFlight s" and Q = "\<lambda>s t. p \<in> inFlight t"])
    (simp_all add: renderPage_begin_def)

lemma stays_callback: "p \<in> inFlight s \<Longrightarrow> p \<in> inFlight (intersection_callback es s)"
proof (induction es arbitrary: s)
  case Nil
  then show ?case by simp
next
  case (Cons e es)
  obtain q b where e: "e = Entry q b" by (cases e)
  show ?case unfolding e
    by (auto intro!: Cons.IH simp: Cons.prems enqueue_def stays_pump split: option.splits)
qed

lemma stays_step: "\<not> settles p e \<Longrightarrow> p \<in> inFlight s \<Longrightarrow> p \<in> inFlight (step e s)"
  by (cases e)
    (auto simp: stays_callback renderPage_settle_def finally_callback_def stays_pump)

lemma stays_run:
  "\<forall>e \<in> set es. \<not> settles p e \<Longrightarrow> p \<in> inFlight s \<Longrightarrow> p \<in> inFlight (run es s)"
  by (induction es arbitrary: s) (simp_all add: stays_step)

lemma enqueue_pending: "p \<in> set (queue s) \<or> p \<in> inFlight s \<Longrightarrow> enqueue p s = s"
  by (auto simp: enqueue_def)

lemma find_build_holders:
  assumes "1 \<le> p" "p \<le> n"
  shows "find_holder p (build_holders r n) =
         Some \<lparr>data_page = p, paddingTop = r * 100, content = Blank, rendered = False\<rparr>"
proof -
  have "p \<in> data_page ` set (build_holders r n)"
    using assms by (force simp: build_holders_def)
  then obtain h where h: "find_holder p (build_holders r n) = Some h"
    using find_holder_None [of p "build_holders r n"] by (cases "find_holder p (build_holders r n)") auto
  then have "h \<in> set (build_holders r n)" "data_page h = p"
    by (simp_all add: find_holder_Some)
  then have "h = \<lparr>data_page = p, paddingTop = r * 100, content = Blank, rendered = False\<rparr>"
    by (auto simp: build_holders_def)
  with h show ?thesis by simp
qed

lemma first_notify:
  assumes "1 \<le> k" "1 \<le> p" "p \<le> n" "holders c = build_holders r n"
  shows "step (Notify p) (new_sched k cls c) =
         (new_sched k cls c)\<lparr>inFlight := {p}, active := 1, started := [p]\<rparr>"
proof -
  let ?s = "new_sched k cls c"
  let ?s1 = "?s\<lparr>queue := [p]\<rparr>"
  let ?s2 = "renderPage_begin p (?s1\<lparr>queue := [], active := active ?s1 + 1\<rparr>)"
  have s2: "?s2 = ?s\<lparr>inFlight := {p}, active := 1, started := [p]\<rparr>"
    by (simp add: renderPage_begin_def new_sched_def)
  have "pump ?s1 = pump ?s2"
    using assms by (intro pump_admit) (simp_all add: new_sched_def)
  also have "\<dots> = ?s2"
    by (rule pump_stop) (simp add: renderPage_begin_def new_sched_def)
  finally have "pump ?s1 = ?s\<lparr>inFlight := {p}, active := 1, started := [p]\<rparr>"
    using s2 by simp
  moreover have "enqueue p ?s = pump ?s1"
    by (simp add: enqueue_def new_sched_def)
  moreover have "find_holder p (holders ?s) =
      Some \<lparr>data_page = p, paddingTop = r * 100, content = Blank, rendered = False\<rparr>"
    using assms find_build_holders [of p n r] by (simp add: new_sched_def)
  ultimately show ?thesis by simp
qed

lemma repeated_notify:
  assumes "p \<in> inFlight s"
  shows "run (replicate m (Notify p)) s = s"
proof (induction m)
  case 0
  then show ?case by simp
next
  case (Suc m)
  have "step (Notify p) s = s"
    using assms by (simp add: enqueue_pending split: option.splits)
  with Suc show ?case by simp
qed

text \<open>
  C2.  \<^verbatim>\<open>enqueue(p)\<close> is a no-op whenever \<open>p\<close> is in the queue or in flight.  As long as
  the render of \<open>p\<close> does not settle, whatever else happens and however often \<open>p\<close> is
  notified, the number of renders started for \<open>p\<close> grows by exactly one if \<open>p\<close> was not
  in flight and now is, and by none otherwise.  In particular, any positive number of
  notifications of a page of the document to a new scheduler with a limit of at least
  1 starts exactly one render of that page.
\<close>

theorem notify_idempotent:
  "(p \<in> set (queue s) \<or> p \<in> inFlight s \<longrightarrow> enqueue p s = s) \<and>
   ((\<forall>e \<in> set es. \<not> settles p e) \<longrightarrow>
      count_list (started (run es s)) p =
      count_list (started s) p + (if p \<notin> inFlight s \<and> p \<in> inFlight (run es s) then 1 else 0) \<and>
      (p \<in> inFlight s \<longrightarrow> p \<in> inFlight (run es s))) \<and>
   (1 \<le> k \<and> 1 \<le> p \<and> p \<le> n \<and> holders c = build_holders r n \<and> 1 \<le> m \<longrightarrow>
      started (run (replicate m (Notify p)) (new_sched k cls c)) = [p] \<and>
      inFlight (run (replicate m (Notify p)) (new_sched k cls c)) = {p} \<and>
      queue (run (replicate m (Notify p)) (new_sched k cls c)) = [])"
proof (intro conjI impI)
  assume "p \<in> set (queue s) \<or> p \<in> inFlight s"
  then show "enqueue p s = s" by (rule enqueue_pending)
next
  assume a: "\<forall>e \<in> set es. \<not> settles p e"
  from tally_run [OF a, of s, unfolded tally_def] stays_run [OF a, of s]
  show "count_list (started (run es s)) p =
      count_list (started s) p + (if p \<notin> inFlight s \<and> p \<in> inFlight (run es s) then 1 else 0)"
    by (auto split: if_splits)
  assume "p \<in> inFlight s"
  with stays_run [OF a] show "p \<in> inFlight (run es s)" .
next
  assume a: "1 \<le> k \<and> 1 \<le> p \<and> p \<le> n \<and> holders c = build_holders r n \<and> 1 \<le> m"
  then obtain m' where m: "m = Suc m'" by (cases m) auto
  let ?s1 = "(new_sched k cls c)\<lparr>inFlight := {p}, active := 1, started := [p]\<rparr>"
  have "run (replicate m (Notify p)) (new_sched k cls c) = run (replicate m' (Notify p)) ?s1"
    using a first_notify [of k p n c r cls] by (simp add: m)
  also have "\<dots> = ?s1" by (rule repeated_notify) simp
  finally have r: "run (replicate m (Notify p)) (new_sched k cls c) = ?s1" .
  show "started (run (replicate m (Notify p)) (new_sched k cls c)) = [p]"
    and "inFlight (run (replicate m (Notify p)) (new_sched k cls c)) = {p}"
    and "queue (run (replicate m (Notify p)) (new_sched k cls c)) = []"
    unfolding r by (simp_all add: new_sched_def)
qed

section \<open>Evaluating concrete runs\<close>

lemma five_holders:
  "build_holders r 5 =
   map (\<lambda>i. \<lparr>data_page = i, paddingTop = r * 100, content = Blank, rendered = False\<rparr>)
     [1, 2, 3, 4, 5]"
  by (simp add: build_holders_def upt_rec)

lemmas evals = five_pages_def new_sched_def five_holders find_holder_def enqueue_def pump.simps
  renderPage_begin_def renderPage_settle_def finally_callback_def or_default_def make_canvas_def
  canvas_size_def integer_part_def insert_Diff_if

theorem notify_idempotent_witness:
  "(3 \<in> inFlight (step (Notify 3) five_pages) \<and>
    enqueue 3 (step (Notify 3) five_pages) = step (Notify 3) five_pages) \<and>
   (\<not> settles 3 (Notify 3) \<and> \<not> settles 3 (Notify 1) \<and> \<not> settles 3 Finally \<and>
    count_list (started (run [Notify 3, Notify 1, Notify 3, Finally] (step (Notify 3) five_pages))) 3 =
      count_list (started (step (Notify 3) five_pages)) 3 \<and>
    count_list (started (step (Notify 3) five_pages)) 3 = 1 \<and>
    3 \<in> inFlight (run [Notify 3, Notify 1, Notify 3, Finally] (step (Notify 3) five_pages))) \<and>
   ((1::nat) \<le> 2 \<and> (1::nat) \<le> 3 \<and> (3::nat) \<le> 5 \<and> (1::nat) \<le> 4 \<and>
    started (run (replicate 4 (Notify 3)) five_pages) = [3] \<and>
    inFlight (run (replicate 4 (Notify 3)) five_pages) = {3} \<and>
    queue (run (replicate 4 (Notify 3)) five_pages) = [])"
  using notify_idempotent [where p = 3 and s = "step (Notify 3) five_pages"
      and es = "[Notify 3, Notify 1, Notify 3, Finally]" and k = 2 and n = 5 and m = 4
      and r = "7 / 5" and cls = "''pdf-sheet''"
      and c = "\<lparr>loaders = 0, canvases = [], holders = build_holders (7 / 5) 5, errors = []\<rparr>"]
  by (simp add: evals)

section \<open>Rendered pages and failed pages\<close>

lemma holders_begin: "holders (renderPage_begin p s) = holders s"
  by (simp add: renderPage_begin_def)

lemma holders_pump: "holders (pump s) = holders s"
  by (rule pump_rule [where P = "\<lambda>s. True" and Q = "\<lambda>s t. holders t = holders s"])
    (simp_all add: holders_begin)

lemma holders_enqueue: "holders (enqueue p s) = holders s"
  by (simp add: enqueue_def holders_pump)

lemma holders_callback: "holders (intersection_callback es s) = holders s"
proof (induction es arbitrary: s)
  case Nil
  then show ?case by simp
next
  case (Cons e es)
  obtain q b where e: "e = Entry q b" by (cases e)
  show ?case unfolding e
    by (simp add: Cons.IH holders_enqueue split: option.splits)
qed

lemma holders_finally: "holders (finally_callback s) = holders s"
  by (simp add: finally_callback_def holders_pump)

lemma shown_ok_settle:
  assumes "pages_ok s" "shown_ok s"
  shows "shown_ok (renderPage_settle p out s)"
proof (cases "p \<in> inFlight s")
  case False
  with assms show ?thesis by (simp add: renderPage_settle_def)
next
  case True
  have nr: "\<not> rendered h" if "h \<in> set (holders s)" "data_page h = p" for h
    using that True assms(1) by (auto simp: pages_ok_def)
  show ?thesis
  proof (cases out)
    case (Rendered v)
    let ?f = "\<lambda>x. x\<lparr>content := CanvasIn (make_canvas v (className s)), rendered := True\<rparr>"
    have "is_canvas (content h')" if "h' \<in> set (update_holder p ?f (holders s))" "rendered h'" for h'
      using set_update_holder [OF that(1)] that(2) assms(2) by (auto simp: shown_ok_def)
    with True Rendered show ?thesis
      by (simp add: renderPage_settle_def shown_ok_def)
  next
    case (Failed m)
    let ?f = "\<lambda>x. x\<lparr>content := ErrorBox (or_default (Text m) (RenderDefaultMsg p))\<rparr>"
    have "is_canvas (content h')" if "h' \<in> set (update_holder p ?f (holders s))" "rendered h'" for h'
      using set_update_holder [OF that(1)] that(2) assms(2) nr by (auto simp: shown_ok_def)
    with True Failed show ?thesis
      by (simp add: renderPage_settle_def shown_ok_def)
  qed
qed

lemma shown_ok_step: "pages_ok s \<Longrightarrow> shown_ok s \<Longrightarrow> shown_ok (step e s)"
  by (cases e) (simp_all add: shown_ok_settle, simp_all add: shown_ok_def holders_callback holders_finally)

lemma shown_ok_run: "pages_ok s \<Longrightarrow> shown_ok s \<Longrightarrow> shown_ok (run es s)"
  by (induction es arbitrary: s) (simp_all add: shown_ok_step pages_ok_step)

lemma shown_ok_new: "holders c = build_holders r n \<Longrightarrow> shown_ok (new_sched k cls c)"
  by (auto simp: shown_ok_def new_sched_def build_holders_def)

text \<open>A page whose holder is marked rendered is left alone by every event.\<close>

lemma rendered_idle:
  "pages_ok s \<Longrightarrow> find_holder p (holders s) = Some h \<Longrightarrow> rendered h \<Longrightarrow>
   p \<notin> set (queue s) \<and> p \<notin> inFlight s"
  by (auto simp: pages_ok_def dest!: find_holder_Some)

lemma rendered_step:
  assumes "pages_ok s" "find_holder p (holders s) = Some h" "rendered h"
  shows "find_holder p (holders (step e s)) = Some h \<and> tally p (step e s) = tally p s"
proof (cases e)
  case (Intersect es)
  with assms show ?thesis by (simp add: holders_callback tally_callback)
next
  case Finally
  with assms show ?thesis by (simp add: holders_finally tally_finally)
next
  case (Settle q out)
  show ?thesis
  proof (cases "q \<in> inFlight s")
    case False
    with Settle assms show ?thesis by (simp add: renderPage_settle_def)
  next
    case True
    with rendered_idle [OF assms] have qp: "q \<noteq> p" by auto
    then have "\<not> settles p e" using Settle by simp
    then have t: "tally p (step e s) = tally p s" by (rule tally_step)
    have "find_holder p (holders (step e s)) = find_holder p (holders s)"
      using Settle True qp
      by (cases out) (simp_all add: renderPage_settle_def find_update_holder_other)
    with t assms show ?thesis by simp
  qed
qed

lemma rendered_run:
  "pages_ok s \<Longrightarrow> find_holder p (holders s) = Some h \<Longrightarrow> rendered h \<Longrightarrow>
   find_holder p (holders (run es s)) = Some h \<and> tally p (run es s) = tally p s"
proof (induction es arbitrary: s)
  case Nil
  then show ?case by simp
next
  case (Cons e es)
  from rendered_step [OF Cons.prems, of e]
  have 1: "find_holder p (holders (step e s)) = Some h" and 2: "tally p (step e s) = tally p s"
    by simp_all
  from Cons.IH [OF pages_ok_step [OF Cons.prems(1)] 1 Cons.prems(3)] 2
  show ?case by simp
qed

text \<open>A pending page other than 0 stays pending through the pump loop.\<close>

lemma pending_pump:
  "q \<noteq> 0 \<Longrightarrow> q \<in> set (queue s) \<or> q \<in> inFlight s \<Longrightarrow>
   q \<in> set (queue (pump s)) \<or> q \<in> inFlight (pump s)"
  by (rule pump_rule [where P = "\<lambda>s. q \<noteq> 0 \<and> (q \<in> set (queue s) \<or> q \<in> inFlight s)"
        and Q = "\<lambda>s t. q \<in> set (queue t) \<or> q \<in> inFlight t"])
    (auto simp: renderPage_begin_def)

lemma pump_single:
  assumes "active s < concurrent s" "queue s = [p]" "p \<noteq> 0" "p \<notin> inFlight s"
  shows "started (pump s) = started s @ [p]"
proof -
  let ?s' = "renderPage_begin p (s\<lparr>queue := [], active := active s + 1\<rparr>)"
  have "pump s = pump ?s'" using assms by (intro pump_admit) simp_all
  also have "\<dots> = ?s'" by (rule pump_stop) (simp add: renderPage_begin_def)
  finally show ?thesis using assms(4) by (simp add: renderPage_begin_def)
qed

text \<open>
  C3, as stated, fails for a failed page.  In the five-page scheduler page 1 is
  notified, its render fails and its slot is released: the holder of page 1 shows the
  error and is not marked, one render has been started, and page 1 is neither queued
  nor in flight.  The next notification of page 1 starts a second render.
\<close>

theorem failed_page_retried:
  "find_holder 1 (holders (run [Notify 1, Settle 1 (Failed ''boom''), Finally] five_pages)) =
     Some \<lparr>data_page = 1, paddingTop = 140, content = ErrorBox (Text ''boom''), rendered = False\<rparr> \<and>
   started (run [Notify 1, Settle 1 (Failed ''boom''), Finally] five_pages) = [1] \<and>
   queue (run [Notify 1, Settle 1 (Failed ''boom''), Finally] five_pages) = [] \<and>
   inFlight (run [Notify 1, Settle 1 (Failed ''boom''), Finally] five_pages) = {} \<and>
   started (run [Notify 1, Settle 1 (Failed ''boom''), Finally, Notify 1] five_pages) = [1, 1] \<and>
   inFlight (run [Notify 1, Settle 1 (Failed ''boom''), Finally, Notify 1] five_pages) = {1}"
  by (simp add: evals or_default_def)

text \<open>
  C3, amended.  In every state the scheduler can reach: once the holder of page \<open>p\<close>
  is marked rendered, no later event queues \<open>p\<close>, puts it in flight or starts another
  render of it.  A page whose holder shows a render error is not marked: when such a
  page is neither queued nor in flight, its next notification enqueues it again, it
  is pending afterwards, and with a free slot and an empty queue a further render of
  it starts at once.
\<close>

theorem rendered_not_retried:
  assumes "holders c = build_holders r n"
    and "s = run pre (new_sched k cls c)"
    and "find_holder p (holders s) = Some h"
  shows "(rendered h \<longrightarrow>
            count_list (started (run es s)) p = count_list (started s) p \<and>
            p \<notin> set (queue (run es s)) \<and> p \<notin> inFlight (run es s)) \<and>
         (content h = ErrorBox m \<and> p \<notin> set (queue s) \<and> p \<notin> inFlight s \<longrightarrow>
            step (Notify p) s = pump (s\<lparr>queue := queue s @ [p]\<rparr>) \<and>
            (p \<in> set (queue (step (Notify p) s)) \<or> p \<in> inFlight (step (Notify p) s)) \<and>
            (active s < concurrent s \<and> queue s = [] \<longrightarrow>
               started (step (Notify p) s) = started s @ [p]))"
proof (intro conjI impI)
  have ok: "pages_ok s" "shown_ok s"
    using assms(1,2) by (simp_all add: pages_ok_run pages_ok_new shown_ok_run shown_ok_new)
  {
    assume rd: "rendered h"
    from rendered_run [OF ok(1) assms(3) rd, of es]
    have f: "find_holder p (holders (run es s)) = Some h" and t: "tally p (run es s) = tally p s"
      by simp_all
    have idle: "p \<notin> set (queue (run es s)) \<and> p \<notin> inFlight (run es s)"
      by (rule rendered_idle [OF pages_ok_run [OF ok(1)] f rd])
    then show "p \<notin> set (queue (run es s))" and "p \<notin> inFlight (run es s)" by simp_all
    from rendered_idle [OF ok(1) assms(3) rd] idle t
    show "count_list (started (run es s)) p = count_list (started s) p"
      by (simp add: tally_def)
  }
  {
    assume a: "content h = ErrorBox m \<and> p \<notin> set (queue s) \<and> p \<notin> inFlight s"
    from assms(3) have hs: "h \<in> set (holders s)" "data_page h = p"
      by (simp_all add: find_holder_Some)
    with ok(2) a have nr: "\<not> rendered h" by (auto simp: shown_ok_def)
    from hs ok(1) have p0: "p \<noteq> 0" by (auto simp: pages_ok_def)
    from a nr assms(3) show st: "step (Notify p) s = pump (s\<lparr>queue := queue s @ [p]\<rparr>)"
      by (simp add: enqueue_def)
    show "p \<in> set (queue (step (Notify p) s)) \<or> p \<in> inFlight (step (Notify p) s)"
      unfolding st by (rule pending_pump [OF p0]) simp
    {
      assume "active s < concurrent s \<and> queue s = []"
      with a p0 show "started (step (Notify p) s) = started s @ [p]"
        unfolding st using pump_single [of "s\<lparr>queue := queue s @ [p]\<rparr>" p] by simp
    }
  }
qed

lemma after_two_holders:
  "holders after_two =
     [\<lparr>data_page = 1, paddingTop = 140,
       content = CanvasIn \<lparr>canvas_width = 900, canvas_height = 1260, canvas_class = ''pdf-sheet''\<rparr>,
       rendered = True\<rparr>,
      \<lparr>data_page = 2, paddingTop = 140, content = ErrorBox (Text ''boom''), rendered = False\<rparr>,
      \<lparr>data_page = 3, paddingTop = 140, content = Blank, rendered = False\<rparr>,
      \<lparr>data_page = 4, paddingTop = 140, content = Blank, rendered = False\<rparr>,
      \<lparr>data_page = 5, paddingTop = 140, content = Blank, rendered = False\<rparr>]"
  by (simp add: after_two_def evals)

lemma after_two_sched:
  "queue after_two = [] \<and> inFlight after_two = {} \<and> started after_two = [1, 2] \<and>
   active after_two = 0 \<and> concurrent after_two = 2 \<and> settled after_two = 0"
  by (simp add: after_two_def evals)

theorem rendered_not_retried_witness:
  "holders \<lparr>loaders = 0, canvases = [], holders = build_holders (7 / 5) 5, errors = []\<rparr> =
     build_holders (7 / 5) 5 \<and>
   find_holder 1 (holders after_two) =
     Some \<lparr>data_page = 1, paddingTop = 140,
            content = CanvasIn \<lparr>canvas_width = 900, canvas_height = 1260, canvas_class = ''pdf-sheet''\<rparr>,
            rendered = True\<rparr> \<and>
   count_list (started (run [Notify 1, Notify 1, Finally] after_two)) 1 =
     count_list (started after_two) 1 \<and>
   1 \<notin> inFlight (run [Notify 1, Notify 1, Finally] after_two) \<and>
   find_holder 2 (holders after_two) =
     Some \<lparr>data_page = 2, paddingTop = 140, content = ErrorBox (Text ''boom''), rendered = False\<rparr> \<and>
   2 \<notin> set (queue after_two) \<and> 2 \<notin> inFlight after_two \<and>
   active after_two < concurrent after_two \<and> queue after_two = [] \<and>
   started (step (Notify 2) after_two) = started after_two @ [2]"
proof -
  let ?c = "\<lparr>loaders = 0, canvases = [], holders = build_holders (7 / 5) 5, errors = []\<rparr>"
  let ?pre = "[Notify 1, Notify 2, Settle 1 (Rendered \<lparr>width = 900, height = 1260\<rparr>),
          Settle 2 (Failed ''boom''), Finally, Finally]"
  let ?h1 = "\<lparr>data_page = 1, paddingTop = 140,
            content = CanvasIn \<lparr>canvas_width = 900, canvas_height = 1260, canvas_class = ''pdf-sheet''\<rparr>,
            rendered = True\<rparr>"
  let ?h2 = "\<lparr>data_page = 2, paddingTop = 140, content = ErrorBox (Text ''boom''), rendered = False\<rparr>"
  have c: "holders ?c = build_holders (7 / 5) 5" by simp
  have s: "after_two = run ?pre (new_sched 2 ''pdf-sheet'' ?c)"
    by (simp only: after_two_def five_pages_def)
  have f1: "find_holder 1 (holders after_two) = Some ?h1"
    by (simp add: after_two_holders find_holder_def)
  have f2: "find_holder 2 (holders after_two) = Some ?h2"
    by (simp add: after_two_holders find_holder_def)
  have idle: "2 \<notin> set (queue after_two)" "2 \<notin> inFlight after_two"
    "active after_two < concurrent after_two" "queue after_two = []"
    by (simp_all add: after_two_sched)
  have rd: "rendered ?h1" by simp
  have er: "content ?h2 = ErrorBox (Text ''boom'')" by simp
  from rendered_not_retried [OF c s f1, of "[Notify 1, Notify 1, Finally]" "Text ''boom''"] rd
  have r1: "count_list (started (run [Notify 1, Notify 1, Finally] after_two)) 1 =
      count_list (started after_two) 1"
    and r2: "1 \<notin> inFlight (run [Notify 1, Notify 1, Finally] after_two)"
    by blast+
  from rendered_not_retried [OF c s f2, of "[]" "Text ''boom''"] er idle
  have r3: "started (step (Notify 2) after_two) = started after_two @ [2]"
    by blast
  from c f1 f2 idle r1 r2 r3 show ?thesis by blast
qed

section \<open>First in, first out\<close>

lemma servedI:
  "started t = started s @ adm \<Longrightarrow> adm @ queue t = queue s @ new \<Longrightarrow> served s t"
  by blast

lemma served_refl: "served s s"
  by (rule servedI [of s s "[]" "[]"]) simp_all

lemma served_trans:
  assumes "served s t" "served t u"
  shows "served s u"
proof -
  from assms(1) obtain adm1 new1 where
    1: "started t = started s @ adm1" "adm1 @ queue t = queue s @ new1" by blast
  from assms(2) obtain adm2 new2 where
    2: "started u = started t @ adm2" "adm2 @ queue u = queue t @ new2" by blast
  have "started u = started s @ (adm1 @ adm2)" using 1(1) 2(1) by simp
  moreover have "(adm1 @ adm2) @ queue u = queue s @ (new1 @ new2)"
  proof -
    have "(adm1 @ adm2) @ queue u = adm1 @ (queue t @ new2)" using 2(2) by simp
    also have "\<dots> = (queue s @ new1) @ new2" using 1(2) by simp
    finally show ?thesis by simp
  qed
  ultimately show ?thesis by (rule servedI)
qed

lemma fifo_pump:
  assumes "pages_ok s"
  shows "served s (pump s)"
proof (rule pump_rule [where P = pages_ok and Q = served, OF assms])
  fix s
  show "served s s" by (rule served_refl)
next
  fix s q
  assume "pages_ok s" "queue s = 0 # q"
  then have False by (auto simp: pages_ok_def)
  then show "served s (s\<lparr>queue := q\<rparr>)" ..
next
  fix s p q t
  assume a: "pages_ok s" "queue s = p # q" "p \<noteq> 0"
  let ?s' = "renderPage_begin p (s\<lparr>queue := q, active := active s + 1\<rparr>)"
  from a have nf: "p \<notin> inFlight s" by (auto simp: pages_ok_def)
  with a have ok: "pages_ok ?s'"
    by (auto simp: pages_ok_def renderPage_begin_def)
  from nf have "started ?s' = started s @ [p]" "[p] @ queue ?s' = queue s @ []"
    using a(2) by (simp_all add: renderPage_begin_def)
  then have 1: "served s ?s'" by (rule servedI)
  have "served ?s' t \<longrightarrow> served s t"
  proof
    assume "served ?s' t"
    with 1 show "served s t" by (rule served_trans)
  qed
  with ok show "pages_ok ?s' \<and> (served ?s' t \<longrightarrow> served s t)" ..
qed


lemma fifo_enqueue:
  assumes "pages_ok s" "find_holder p (holders s) = Some h" "\<not> rendered h"
  shows "served s (enqueue p s)"
proof (cases "p \<notin> set (queue s) \<and> p \<notin> inFlight s")
  case False
  then have "enqueue p s = s" by (auto simp: enqueue_def)
  then show ?thesis by (simp only: served_refl)
next
  case True
  let ?s1 = "s\<lparr>queue := queue s @ [p]\<rparr>"
  from assms(2) have hp: "h \<in> set (holders s)" "data_page h = p"
    by (simp_all add: find_holder_Some)
  have "\<not> rendered h'" if "h' \<in> set (holders s)" "data_page h' = p" for h'
    using find_holder_unique [OF _ assms(2) that] assms(1,3) by (simp add: pages_ok_def)
  with assms(1) True hp have "pages_ok ?s1"
    by (auto simp: pages_ok_def)
  then have 1: "served ?s1 (pump ?s1)" by (rule fifo_pump)
  have "started ?s1 = started s @ []" "[] @ queue ?s1 = queue s @ [p]" by simp_all
  then have "served s ?s1" by (rule servedI)
  then have "served s (pump ?s1)" using 1 by (rule served_trans)
  moreover have "enqueue p s = pump ?s1" using True by (simp add: enqueue_def)
  ultimately show ?thesis by (simp only:)
qed

lemma fifo_callback: "pages_ok s \<Longrightarrow> served s (intersection_callback es s)"
proof (induction es arbitrary: s)
  case Nil
  show ?case by (simp only: intersection_callback.simps served_refl)
next
  case (Cons e es)
  obtain p b where e: "e = Entry p b" by (cases e)
  let ?s1 = "if b then (case find_holder p (holders s) of None \<Rightarrow> s
           | Some h \<Rightarrow> if \<not> rendered h then enqueue p s else s) else s"
  have ok1: "pages_ok ?s1"
    using Cons.prems by (auto simp: pages_ok_enqueue split: option.splits)
  have 1: "served s ?s1"
  proof (cases "b \<and> (\<exists>h. find_holder p (holders s) = Some h \<and> \<not> rendered h)")
    case True
    then obtain h where h: "find_holder p (holders s) = Some h" "\<not> rendered h" by blast
    with True have "?s1 = enqueue p s" by simp
    with fifo_enqueue [OF Cons.prems h] show ?thesis by (simp only:)
  next
    case False
    then have "?s1 = s" by (auto split: option.splits)
    then show ?thesis by (simp only: served_refl)
  qed
  have "served ?s1 (intersection_callback es ?s1)" by (rule Cons.IH [OF ok1])
  with 1 have "served s (intersection_callback es ?s1)" by (rule served_trans)
  then show ?case unfolding e by (simp only: intersection_callback.simps)
qed

lemma fifo_step:
  assumes "pages_ok s"
  shows "served s (step e s)"
proof (cases e)
  case (Intersect es)
  with fifo_callback [OF assms, of es] show ?thesis by (simp only: step.simps)
next
  case (Settle p out)
  have "started (step e s) = started s @ []" "[] @ queue (step e s) = queue s @ []"
    using Settle by (simp_all add: renderPage_settle_def)
  then show ?thesis by (rule servedI)
next
  case Finally
  show ?thesis
  proof (cases "settled s = 0")
    case True
    with Finally have "step e s = s" by (simp add: finally_callback_def)
    then show ?thesis by (simp only: served_refl)
  next
    case False
    let ?s1 = "s\<lparr>settled := settled s - 1, active := active s - 1\<rparr>"
    from assms have "pages_ok ?s1" by (simp add: pages_ok_def)
    then have 1: "served ?s1 (pump ?s1)" by (rule fifo_pump)
    have "started ?s1 = started s @ []" "[] @ queue ?s1 = queue s @ []" by simp_all
    then have "served s ?s1" by (rule servedI)
    then have "served s (pump ?s1)" using 1 by (rule served_trans)
    moreover have "step e s = pump ?s1" using False Finally by (simp add: finally_callback_def)
    ultimately show ?thesis by (simp only:)
  qed
qed

lemma fifo_run: "pages_ok s \<Longrightarrow> served s (run es s)"
proof (induction es arbitrary: s)
  case Nil
  show ?case by (simp only: run.simps served_refl)
next
  case (Cons e es)
  have 1: "served s (step e s)" by (rule fifo_step [OF Cons.prems])
  have "served (step e s) (run es (step e s))"
    by (rule Cons.IH [OF pages_ok_step [OF Cons.prems]])
  with 1 have "served s (run es (step e s))" by (rule served_trans)
  then show ?case by (simp only: run.simps)
qed

text \<open>A list that starts a longer list and holds an element reaches the first
  occurrence of that element there.\<close>

lemma prefix_reaches:
  assumes "adm @ rest = us @ b # vs" "b \<in> set adm" "b \<notin> set us"
  shows "\<exists>ws. adm = us @ b # ws"
  using assms
proof (induction us arbitrary: adm)
  case Nil
  then show ?case by (cases adm) auto
next
  case (Cons u us)
  then obtain a adm' where adm: "adm = a # adm'" by (cases adm) auto
  with Cons.prems have "adm' @ rest = us @ b # vs" "b \<in> set adm'" "b \<notin> set us" "a = u"
    by auto
  with Cons.IH [of adm'] adm show ?case by auto
qed

lemma triggered_sched:
  "started triggered = [3, 1] \<and> queue triggered = [5, 2, 4] \<and> inFlight triggered = {1, 3}"
  by (simp add: triggered_def evals)

text \<open>
  C4.  In every state the scheduler can reach, if page \<open>A\<close> stands before page \<open>B\<close> in
  the queue (both are pending, \<open>A\<close> was observed first) and \<open>B\<close> is among the renders
  started afterwards, then the renders started afterwards are the queue up to \<open>B\<close>, in
  its order: \<open>A\<close> is started before \<open>B\<close>, whatever the page numbers.  In the scenario
  of five pages with limit 2 and triggers 3, 1, 5, 2, 4, pages 3 and 1 are started at
  once and 5, 2, 4 wait in this order; whichever of 3 and 1 settles first, 5 is next,
  then 2, then 4.
\<close>

theorem fifo_admission:
  "(holders c = build_holders r n \<and> s = run pre (new_sched k cls c) \<and>
    queue s = xs @ A # ys @ B # zs \<and>
    B \<in> set (drop (length (started s)) (started (run es s))) \<longrightarrow>
      (\<exists>ws. started (run es s) = started s @ xs @ A # ys @ B # ws)) \<and>
   started triggered = [3, 1] \<and> queue triggered = [5, 2, 4] \<and>
   started (run [Settle 3 oa, Finally] triggered) = [3, 1, 5] \<and>
   queue (run [Settle 3 oa, Finally] triggered) = [2, 4] \<and>
   started (run [Settle 1 oa, Finally] triggered) = [3, 1, 5] \<and>
   queue (run [Settle 1 oa, Finally] triggered) = [2, 4] \<and>
   started (run [Settle 1 oa, Finally, Settle 5 ob, Finally] triggered) = [3, 1, 5, 2] \<and>
   started (run [Settle 1 oa, Finally, Settle 5 ob, Finally, Settle 3 oc, Finally] triggered) =
     [3, 1, 5, 2, 4]"
proof (intro conjI impI)
  assume a: "holders c = build_holders r n \<and> s = run pre (new_sched k cls c) \<and>
    queue s = xs @ A # ys @ B # zs \<and>
    B \<in> set (drop (length (started s)) (started (run es s)))"
  then have hc: "holders c = build_holders r n" and sd: "s = run pre (new_sched k cls c)"
    and q: "queue s = xs @ A # ys @ B # zs"
    and B0: "B \<in> set (drop (length (started s)) (started (run es s)))"
    by blast+
  have ok: "pages_ok s" unfolding sd by (intro pages_ok_run pages_ok_new) (rule hc)
  from fifo_run [OF ok, of es] obtain adm new where
    1: "started (run es s) = started s @ adm" and 2: "adm @ queue (run es s) = queue s @ new"
    by blast
  from B0 have B: "B \<in> set adm" unfolding 1 by simp
  from ok have "distinct (queue s)" by (simp add: pages_ok_def)
  then have "distinct (xs @ A # ys @ B # zs)" unfolding q .
  then have nB: "B \<notin> set (xs @ A # ys)" by auto
  from 2 have "adm @ queue (run es s) = (xs @ A # ys) @ B # (zs @ new)" unfolding q by simp
  from prefix_reaches [OF this B nB] obtain ws where "adm = (xs @ A # ys) @ B # ws" ..
  with 1 have "started (run es s) = started s @ xs @ A # ys @ B # ws" by simp
  then show "\<exists>ws. started (run es s) = started s @ xs @ A # ys @ B # ws" ..
qed (simp_all add: triggered_def evals)

theorem fifo_admission_witness:
  "holders \<lparr>loaders = 0, canvases = [], holders = build_holders (7 / 5) 5, errors = []\<rparr> =
     build_holders (7 / 5) 5 \<and>
   queue triggered = [] @ 5 # [2] @ 4 # [] \<and>
   4 \<in> set (drop (length (started triggered))
     (started (run [Settle 1 (Failed ''boom''), Finally, Settle 5 (Failed []), Finally,
                    Settle 3 (Failed []), Finally] triggered))) \<and>
   (\<exists>ws. started (run [Settle 1 (Failed ''boom''), Finally, Settle 5 (Failed []), Finally,
                    Settle 3 (Failed []), Finally] triggered) =
      started triggered @ [] @ 5 # [2] @ 4 # ws)"
proof -
  let ?c = "\<lparr>loaders = 0, canvases = [], holders = build_holders (7 / 5) 5, errors = []\<rparr>"
  let ?es = "[Settle 1 (Failed ''boom''), Finally, Settle 5 (Failed []), Finally,
                    Settle 3 (Failed []), Finally]"
  have c: "holders ?c = build_holders (7 / 5) 5" by simp
  have s: "triggered = run (map Notify [3, 1, 5, 2, 4]) (new_sched 2 ''pdf-sheet'' ?c)"
    by (simp only: triggered_def five_pages_def)
  have q: "queue triggered = [] @ 5 # [2] @ 4 # []" by (simp add: triggered_sched)
  have "started (run ?es triggered) = [3, 1, 5, 2, 4]"
    by (simp add: triggered_def evals)
  then have b: "4 \<in> set (drop (length (started triggered)) (started (run ?es triggered)))"
    by (simp add: triggered_sched)
  from fifo_admission [where c = ?c and r = "7 / 5" and n = 5 and s = triggered
      and pre = "map Notify [3, 1, 5, 2, 4]" and k = 2 and cls = "''pdf-sheet''"
      and xs = "[]" and A = 5 and ys = "[2]" and B = 4 and zs = "[]" and es = ?es] c s q b
  have "\<exists>ws. started (run ?es triggered) = started triggered @ [] @ 5 # [2] @ 4 # ws"
    by blast
  with c q b show ?thesis by blast
qed

section \<open>A failed render stays local\<close>

text \<open>The pump loop neither reads nor writes the holders.\<close>

lemma begin_holders_update:
  "renderPage_begin p (s\<lparr>holders := hs\<rparr>) = (renderPage_begin p s)\<lparr>holders := hs\<rparr>"
  by (simp add: renderPage_begin_def)

lemma pump_holders_update: "pump (s\<lparr>holders := hs\<rparr>) = (pump s)\<lparr>holders := hs\<rparr>"
proof (rule pump_rule [where P = "\<lambda>s. True"
      and Q = "\<lambda>s t. pump (s\<lparr>holders := hs\<rparr>) = t\<lparr>holders := hs\<rparr>"])
  fix s :: sched
  assume "\<not> (active s < concurrent s \<and> queue s \<noteq> [])"
  then show "pump (s\<lparr>holders := hs\<rparr>) = s\<lparr>holders := hs\<rparr>"
    by (intro pump_stop) simp
next
  fix s :: sched and q
  assume "active s < concurrent s" "queue s = 0 # q"
  then have "pump (s\<lparr>holders := hs\<rparr>) = s\<lparr>holders := hs\<rparr>\<lparr>queue := q\<rparr>"
    by (intro pump_zero) simp_all
  then show "pump (s\<lparr>holders := hs\<rparr>) = s\<lparr>queue := q\<rparr>\<lparr>holders := hs\<rparr>" by simp
next
  fix s :: sched and p q t
  assume a: "active s < concurrent s" "queue s = p # q" "p \<noteq> 0"
  let ?s' = "renderPage_begin p (s\<lparr>queue := q, active := active s + 1\<rparr>)"
  let ?u = "s\<lparr>holders := hs\<rparr>"
  from a have "pump ?u = pump (renderPage_begin p (?u\<lparr>queue := q, active := active ?u + 1\<rparr>))"
    by (intro pump_admit) simp_all
  also have "renderPage_begin p (?u\<lparr>queue := q, active := active ?u + 1\<rparr>) = ?s'\<lparr>holders := hs\<rparr>"
    by (simp add: renderPage_begin_def)
  finally have "pump ?u = pump (?s'\<lparr>holders := hs\<rparr>)" .
  then show "True \<and> (pump (?s'\<lparr>holders := hs\<rparr>) = t\<lparr>holders := hs\<rparr> \<longrightarrow>
      pump (s\<lparr>holders := hs\<rparr>) = t\<lparr>holders := hs\<rparr>)"
    by simp
qed simp

lemma same_butD:
  assumes "same_but p s t"
  shows "t = s\<lparr>holders := holders t\<rparr>"
proof -
  from assms have "s\<lparr>holders := []\<rparr> = t\<lparr>holders := []\<rparr>" by (simp add: same_but_def)
  then have "(s\<lparr>holders := []\<rparr>)\<lparr>holders := holders t\<rparr> = (t\<lparr>holders := []\<rparr>)\<lparr>holders := holders t\<rparr>"
    by (rule arg_cong)
  then show ?thesis by simp
qed

lemma same_butI:
  "filter (\<lambda>h. data_page h \<noteq> p) hs = filter (\<lambda>h. data_page h \<noteq> p) hs' \<Longrightarrow>
   same_but p (s\<lparr>holders := hs\<rparr>) (s\<lparr>holders := hs'\<rparr>)"
  by (simp add: same_but_def)

lemma same_but_others:
  "same_but p s t \<Longrightarrow>
   filter (\<lambda>h. data_page h \<noteq> p) (holders s) = filter (\<lambda>h. data_page h \<noteq> p) (holders t)"
  by (simp add: same_but_def)

lemma same_but_lift:
  assumes "\<And>s hs. F (s\<lparr>holders := hs\<rparr>) = (F s)\<lparr>holders := hs\<rparr>"
    and "\<And>s. holders (F s) = holders s"
    and "same_but p s t"
  shows "same_but p (F s) (F t)"
proof -
  from same_butD [OF assms(3)] have "F t = F (s\<lparr>holders := holders t\<rparr>)" by simp
  then have t: "F t = (F s)\<lparr>holders := holders t\<rparr>" by (simp only: assms(1))
  have "F s = (F s)\<lparr>holders := holders (F s)\<rparr>" by simp
  then have s: "F s = (F s)\<lparr>holders := holders s\<rparr>" by (simp only: assms(2))
  have "same_but p ((F s)\<lparr>holders := holders s\<rparr>) ((F s)\<lparr>holders := holders t\<rparr>)"
    by (rule same_butI) (rule same_but_others [OF assms(3)])
  with s t show ?thesis by simp
qed

lemma same_but_pump: "same_but p s t \<Longrightarrow> same_but p (pump s) (pump t)"
  by (rule same_but_lift [of pump]) (simp_all only: pump_holders_update holders_pump)

lemma holders_queue_commute:
  "(s::sched)\<lparr>holders := hs\<rparr>\<lparr>queue := x\<rparr> = s\<lparr>queue := x\<rparr>\<lparr>holders := hs\<rparr>"
  by (cases s) simp

lemma holders_counters_commute:
  "(s::sched)\<lparr>holders := hs\<rparr>\<lparr>settled := x, active := y\<rparr> =
   s\<lparr>settled := x, active := y\<rparr>\<lparr>holders := hs\<rparr>"
  by (cases s) simp

lemma enqueue_holders_update:
  "enqueue q (s\<lparr>holders := hs\<rparr>) = (enqueue q s)\<lparr>holders := hs\<rparr>"
  by (simp add: enqueue_def holders_queue_commute pump_holders_update)

lemma same_but_enqueue: "same_but p s t \<Longrightarrow> same_but p (enqueue q s) (enqueue q t)"
  by (rule same_but_lift [of "enqueue q"]) (simp_all only: enqueue_holders_update holders_enqueue)

lemma finally_holders_update:
  "finally_callback (s\<lparr>holders := hs\<rparr>) = (finally_callback s)\<lparr>holders := hs\<rparr>"
  by (simp add: finally_callback_def holders_counters_commute pump_holders_update)

lemma same_but_finally:
  "same_but p s t \<Longrightarrow> same_but p (finally_callback s) (finally_callback t)"
  by (rule same_but_lift [of finally_callback])
    (simp_all only: finally_holders_update holders_finally)

lemma find_holder_others:
  "q \<noteq> p \<Longrightarrow> find_holder q (filter (\<lambda>h. data_page h \<noteq> p) hs) = find_holder q hs"
  unfolding find_holder_def by (induction hs) auto

lemma same_but_find:
  assumes "same_but p s t" "q \<noteq> p"
  shows "find_holder q (holders t) = find_holder q (holders s)"
  using find_holder_others [OF assms(2), of "holders s"] find_holder_others [OF assms(2), of "holders t"]
    same_but_others [OF assms(1)]
  by simp

lemma same_but_callback:
  "same_but p s t \<Longrightarrow> Entry p True \<notin> set es \<Longrightarrow>
   same_but p (intersection_callback es s) (intersection_callback es t)"
proof (induction es arbitrary: s t)
  case Nil
  then show ?case by simp
next
  case (Cons e es)
  obtain q b where e: "e = Entry q b" by (cases e)
  let ?s1 = "if b then (case find_holder q (holders s) of None \<Rightarrow> s
           | Some h \<Rightarrow> if \<not> rendered h then enqueue q s else s) else s"
  let ?t1 = "if b then (case find_holder q (holders t) of None \<Rightarrow> t
           | Some h \<Rightarrow> if \<not> rendered h then enqueue q t else t) else t"
  have "same_but p ?s1 ?t1"
  proof (cases b)
    case False
    with Cons.prems(1) show ?thesis by simp
  next
    case True
    with Cons.prems(2) e have "q \<noteq> p" by auto
    from same_but_find [OF Cons.prems(1) this] True Cons.prems(1)
    show ?thesis by (simp add: same_but_enqueue split: option.splits)
  qed
  moreover from Cons.prems(2) have "Entry p True \<notin> set es" by simp
  ultimately have "same_but p (intersection_callback es ?s1) (intersection_callback es ?t1)"
    by (rule Cons.IH)
  then show ?case unfolding e by (simp only: intersection_callback.simps)
qed

lemma filter_update_holder:
  "(\<And>x. data_page (f x) = data_page x) \<Longrightarrow>
   filter (\<lambda>h. data_page h \<noteq> p) (update_holder q f hs) =
   (if q = p then filter (\<lambda>h. data_page h \<noteq> p) hs
    else update_holder q f (filter (\<lambda>h. data_page h \<noteq> p) hs))"
  by (induction hs) auto

lemma same_but_settle:
  assumes "same_but p s t" "q = p \<or> out = out'"
  shows "same_but p (renderPage_settle q out s) (renderPage_settle q out' t)"
proof -
  obtain ht where t: "t = s\<lparr>holders := ht\<rparr>"
    and f: "filter (\<lambda>h. data_page h \<noteq> p) (holders s) = filter (\<lambda>h. data_page h \<noteq> p) ht"
    using same_butD [OF assms(1)] same_but_others [OF assms(1)] by blast
  show ?thesis
  proof (cases "q \<in> inFlight s")
    case False
    with f show ?thesis unfolding t by (simp add: renderPage_settle_def same_but_def)
  next
    case True
    show ?thesis
    proof (cases "q = p")
      case True
      with \<open>q \<in> inFlight s\<close> f show ?thesis unfolding t
        by (cases out; cases out')
          (simp_all add: renderPage_settle_def same_but_def filter_update_holder)
    next
      case False
      with assms(2) have o: "out' = out" by simp
      from False \<open>q \<in> inFlight s\<close> f show ?thesis unfolding t o
        by (cases out) (simp_all add: renderPage_settle_def same_but_def filter_update_holder)
    qed
  qed
qed

lemma same_but_step:
  "same_but p s t \<Longrightarrow> \<not> notifies p e \<Longrightarrow> same_but p (step e s) (step e t)"
  by (cases e) (simp_all add: same_but_callback same_but_settle same_but_finally)

lemma same_but_run:
  "same_but p s t \<Longrightarrow> \<forall>e \<in> set es. \<not> notifies p e \<Longrightarrow> same_but p (run es s) (run es t)"
  by (induction es arbitrary: s t) (simp_all add: same_but_step)

lemma same_but_refl: "same_but p s s"
  by (simp add: same_but_def)

text \<open>With a free slot and a page other than 0 at the head of the queue, the pump loop
  starts that page.\<close>

lemma pump_progress:
  assumes "pages_ok s" "active s < concurrent s" "queue s = q # qs"
  shows "\<exists>ws. started (pump s) = started s @ q # ws"
proof -
  from assms have q0: "q \<noteq> 0" and nf: "q \<notin> inFlight s" by (auto simp: pages_ok_def)
  let ?s' = "renderPage_begin q (s\<lparr>queue := qs, active := active s + 1\<rparr>)"
  from assms nf have ok: "pages_ok ?s'" by (auto simp: pages_ok_def renderPage_begin_def)
  from fifo_pump [OF ok] obtain adm where "started (pump ?s') = started ?s' @ adm" by blast
  moreover have "pump s = pump ?s'" using assms(2,3) q0 by (rule pump_admit)
  moreover have "started ?s' = started s @ [q]" using nf by (simp add: renderPage_begin_def)
  ultimately have "started (pump s) = started s @ q # adm" by simp
  then show ?thesis ..
qed

text \<open>
  C6.  In every state the scheduler can reach, let the render of an in-flight page \<open>P\<close>
  fail.  Then the error is put into the holder of \<open>P\<close>; every other holder and the
  error list of the container stay as they are; \<open>P\<close> leaves the in-flight set, in which
  every other page stays, and the queue is untouched.  When the \<^verbatim>\<open>.finally\<close> callback
  has run, the slot is free again: with an empty queue \<^verbatim>\<open>active\<close> is one less, and
  otherwise the head of the queue has been started.  Whatever happens afterwards, as
  long as \<open>P\<close> is not notified again, the scheduler and the holders of all other pages
  are exactly as they would be had the render of \<open>P\<close> succeeded.
\<close>

theorem failure_isolated:
  assumes "holders c = build_holders r n"
    and "s = run pre (new_sched k cls c)"
    and "P \<in> inFlight s"
  shows "(\<exists>h. find_holder P (holders s) = Some h \<and>
            find_holder P (holders (step (Settle P (Failed m)) s)) =
              Some (h\<lparr>content := ErrorBox (or_default (Text m) (RenderDefaultMsg P))\<rparr>)) \<and>
         (\<forall>q. q \<noteq> P \<longrightarrow>
            find_holder q (holders (step (Settle P (Failed m)) s)) = find_holder q (holders s)) \<and>
         errors (step (Settle P (Failed m)) s) = errors s \<and>
         inFlight (step (Settle P (Failed m)) s) = inFlight s - {P} \<and>
         queue (step (Settle P (Failed m)) s) = queue s \<and>
         started (step (Settle P (Failed m)) s) = started s \<and>
         (queue s = [] \<longrightarrow>
            0 < active s \<and> active (run [Settle P (Failed m), Finally] s) = active s - 1) \<and>
         (\<forall>q qs. queue s = q # qs \<longrightarrow>
            (\<exists>ws. started (run [Settle P (Failed m), Finally] s) = started s @ q # ws)) \<and>
         (\<forall>es. (\<forall>e \<in> set es. \<not> notifies P e) \<longrightarrow>
            same_but P (run es (step (Settle P (Failed m)) s))
                       (run es (step (Settle P (Rendered v)) s)))"
proof -
  let ?f = "\<lambda>x. x\<lparr>content := ErrorBox (or_default (Text m) (RenderDefaultMsg P))\<rparr>"
  let ?s1 = "s\<lparr>holders := update_holder P ?f (holders s), inFlight := inFlight s - {P},
               settled := settled s + 1\<rparr>"
  have ok: "pages_ok s" unfolding assms(2) by (intro pages_ok_run pages_ok_new) (rule assms(1))
  have sl: "slots_ok s" unfolding assms(2) by (intro slots_ok_run slots_ok_new)
  have s1: "step (Settle P (Failed m)) s = ?s1"
    using assms(3) by (simp add: renderPage_settle_def)
  from ok assms(3) have "P \<in> data_page ` set (holders s)" by (auto simp: pages_ok_def)
  then obtain h where h: "find_holder P (holders s) = Some h"
    using find_holder_None [of P "holders s"] by (cases "find_holder P (holders s)") auto
  have "find_holder P (holders ?s1) = map_option ?f (find_holder P (holders s))"
    by (simp add: find_update_holder_same)
  with h have c1: "\<exists>h. find_holder P (holders s) = Some h \<and>
      find_holder P (holders (step (Settle P (Failed m)) s)) = Some (?f h)"
    unfolding s1 by simp
  have c2: "\<forall>q. q \<noteq> P \<longrightarrow>
      find_holder q (holders (step (Settle P (Failed m)) s)) = find_holder q (holders s)"
    unfolding s1 by (simp add: find_update_holder_other)
  have c3: "errors (step (Settle P (Failed m)) s) = errors s"
    "inFlight (step (Settle P (Failed m)) s) = inFlight s - {P}"
    "queue (step (Settle P (Failed m)) s) = queue s"
    "started (step (Settle P (Failed m)) s) = started s"
    unfolding s1 by simp_all
  let ?s2 = "?s1\<lparr>settled := settled ?s1 - 1, active := active ?s1 - 1\<rparr>"
  have fin: "run [Settle P (Failed m), Finally] s = pump ?s2"
    using s1 by (simp add: finally_callback_def)
  from sl assms(3) have "0 < card (inFlight s)"
    by (auto simp: slots_ok_def card_gt_0_iff)
  with sl have pos: "0 < active s" by (simp add: slots_ok_def)
  from sl have "active s \<le> concurrent s" by (simp add: slots_ok_def)
  with pos have free: "active ?s2 < concurrent ?s2" by simp
  have c4: "queue s = [] \<longrightarrow>
      0 < active s \<and> active (run [Settle P (Failed m), Finally] s) = active s - 1"
  proof
    assume "queue s = []"
    then have "pump ?s2 = ?s2" by (intro pump_stop) simp
    with pos show "0 < active s \<and> active (run [Settle P (Failed m), Finally] s) = active s - 1"
      unfolding fin by simp
  qed
  have ok2: "pages_ok ?s2"
    using pages_ok_step [OF ok, of "Settle P (Failed m)"] unfolding s1
    by (simp add: pages_ok_def)
  have c5: "\<forall>q qs. queue s = q # qs \<longrightarrow>
      (\<exists>ws. started (run [Settle P (Failed m), Finally] s) = started s @ q # ws)"
  proof (intro allI impI)
    fix q qs
    assume "queue s = q # qs"
    then have "queue ?s2 = q # qs" by simp
    from pump_progress [OF ok2 free this]
    show "\<exists>ws. started (run [Settle P (Failed m), Finally] s) = started s @ q # ws"
      unfolding fin by simp
  qed
  have c6: "\<forall>es. (\<forall>e \<in> set es. \<not> notifies P e) \<longrightarrow>
      same_but P (run es (step (Settle P (Failed m)) s)) (run es (step (Settle P (Rendered v)) s))"
  proof (intro allI impI)
    fix es
    assume a: "\<forall>e \<in> set es. \<not> notifies P e"
    have "same_but P (step (Settle P (Failed m)) s) (step (Settle P (Rendered v)) s)"
      unfolding step.simps by (rule same_but_settle [OF same_but_refl]) simp
    then show "same_but P (run es (step (Settle P (Failed m)) s))
        (run es (step (Settle P (Rendered v)) s))"
      using a by (rule same_but_run)
  qed
  from c1 c2 c3 c4 c5 c6 show ?thesis by (intro conjI)
qed

theorem failure_isolated_witness:
  "holders \<lparr>loaders = 0, canvases = [], holders = build_holders (7 / 5) 5, errors = []\<rparr> =
     build_holders (7 / 5) 5 \<and>
   3 \<in> inFlight triggered \<and> (1::nat) \<noteq> 3 \<and>
   find_holder 1 (holders (step (Settle 3 (Failed ''boom'')) triggered)) =
     find_holder 1 (holders triggered) \<and>
   inFlight (step (Settle 3 (Failed ''boom'')) triggered) = inFlight triggered - {3} \<and>
   queue triggered = 5 # [2, 4] \<and>
   (\<exists>ws. started (run [Settle 3 (Failed ''boom''), Finally] triggered) =
      started triggered @ 5 # ws) \<and>
   \<not> notifies 3 Finally \<and> \<not> notifies 3 (Notify 2) \<and>
   same_but 3
     (run [Finally, Notify 2] (step (Settle 3 (Failed ''boom'')) triggered))
     (run [Finally, Notify 2] (step (Settle 3 (Rendered \<lparr>width = 900, height = 1260\<rparr>)) triggered)) \<and>
   3 \<in> inFlight (run [Notify 3] five_pages) \<and> queue (run [Notify 3] five_pages) = [] \<and>
   active (run [Settle 3 (Failed ''boom''), Finally] (run [Notify 3] five_pages)) =
     active (run [Notify 3] five_pages) - 1"
proof -
  let ?c = "\<lparr>loaders = 0, canvases = [], holders = build_holders (7 / 5) 5, errors = []\<rparr>"
  let ?v = "\<lparr>width = 900, height = 1260\<rparr>"
  have c: "holders ?c = build_holders (7 / 5) 5" by simp
  have s: "triggered = run (map Notify [3, 1, 5, 2, 4]) (new_sched 2 ''pdf-sheet'' ?c)"
    by (simp only: triggered_def five_pages_def)
  have p: "3 \<in> inFlight triggered" and q: "queue triggered = 5 # [2, 4]"
    by (simp_all add: triggered_sched)
  have n: "(1::nat) \<noteq> 3" "\<forall>e \<in> set [Finally, Notify 2]. \<not> notifies 3 e" by simp_all
  have s': "run [Notify 3] five_pages = run [Notify 3] (new_sched 2 ''pdf-sheet'' ?c)"
    by (simp only: five_pages_def)
  have p': "3 \<in> inFlight (run [Notify 3] five_pages)"
    and q': "queue (run [Notify 3] five_pages) = []"
    by (simp_all add: evals)
  note a = failure_isolated [OF c s p, where m = "''boom''" and v = ?v]
  from a n(1) have 1: "find_holder 1 (holders (step (Settle 3 (Failed ''boom'')) triggered)) =
      find_holder 1 (holders triggered)"
    by blast
  from a have 2: "inFlight (step (Settle 3 (Failed ''boom'')) triggered) = inFlight triggered - {3}"
    by blast
  from a q have 3: "\<exists>ws. started (run [Settle 3 (Failed ''boom''), Finally] triggered) =
      started triggered @ 5 # ws"
    by blast
  from a n(2) have 4: "same_but 3
     (run [Finally, Notify 2] (step (Settle 3 (Failed ''boom'')) triggered))
     (run [Finally, Notify 2] (step (Settle 3 (Rendered ?v)) triggered))"
    by blast
  from failure_isolated [OF c s' p', where m = "''boom''" and v = ?v] q'
  have 5: "active (run [Settle 3 (Failed ''boom''), Finally] (run [Notify 3] five_pages)) =
     active (run [Notify 3] five_pages) - 1"
    by blast
  have 6: "\<not> notifies 3 Finally" "\<not> notifies 3 (Notify 2)" by simp_all
  from c p n(1) 1 2 q 3 6 4 p' q' 5 show ?thesis by (intro conjI)
qed

section \<open>The loader\<close>

lemma loader_rejects:
  assumes "n \<in> set (reported_sizes f src)" "n < minBytes"
  shows "\<exists>n'. snd (toArrayBufferWithSize f minBytes src) = Inl (TooSmallMsg n' minBytes) \<and>
           n' \<in> set (reported_sizes f src) \<and> n' < minBytes"
proof (cases src)
  case (Url u)
  from assms(1) obtain res where res: "f u = Inr res" "ok res"
    unfolding Url by (cases "f u") (auto split: if_splits)
  show ?thesis
  proof (cases "\<exists>len. content_length res = Some len \<and> 0 < len \<and> len < minBytes")
    case True
    then obtain len where "content_length res = Some len" "0 < len" "len < minBytes" by blast
    with res show ?thesis unfolding Url by simp
  next
    case False
    then have r: "snd (toArrayBufferWithSize f minBytes (Url u)) = read_checked minBytes res"
      using res by (cases "content_length res") auto
    from assms False res
    have "n \<in> set (case body res of Inl e \<Rightarrow> [] | Inr buf \<Rightarrow> [int (length buf)])"
      unfolding Url by (auto split: option.splits if_splits)
    then obtain buf where "body res = Inr buf" "n = int (length buf)"
      by (cases "body res") auto
    with assms(2) res show ?thesis unfolding Url r by (simp add: read_checked_def)
  qed
next
  case (Blob b)
  with assms show ?thesis by auto
next
  case (ArrayBuffer b)
  with assms show ?thesis by auto
next
  case (View v)
  with assms show ?thesis by auto
next
  case Other
  with assms show ?thesis by simp
qed

lemma loader_no_document: "GetDocument b \<notin> set (fst (toArrayBufferWithSize f minBytes src))"
  by (cases src) (auto split: sum.splits option.splits)

lemma lazy_loader_failure:
  "toArrayBufferWithSize (fetch e) (opt_minBytes opts) src = (fx, Inl err) \<Longrightarrow>
   renderPDFLazy e opts src c = (fx, fatal err c)"
  by (simp add: renderPDFLazy_def)

lemma too_small_text: "or_default (TooSmallMsg a b) LoadDefaultMsg = TooSmallMsg a b"
  by (simp add: or_default_def)

text \<open>
  C5.  When one of the sizes the source reports is below the minimum, the promise of
  \<^verbatim>\<open>renderPDFLazy\<close> resolves to \<^verbatim>\<open>undefined\<close> with a size error for a reported size below
  the minimum appended to the container; the holders of the container are as before,
  so no placeholder was created, and the document was never opened.  For a URL whose
  ok response announces a positive length below the minimum, the fetch is the only
  call made: the body is not read.  The default minimum is 5120.
\<close>

theorem size_rejection:
  "(n \<in> set (reported_sizes (fetch e) src) \<and> n < opt_minBytes opts \<longrightarrow>
      (\<exists>n'. n' \<in> set (reported_sizes (fetch e) src) \<and> n' < opt_minBytes opts \<and>
         snd (renderPDFLazy e opts src c) =
           Undefined (removeLoader (c\<lparr>errors := errors c @ [TooSmallMsg n' (opt_minBytes opts)]\<rparr>)) \<and>
         holders (removeLoader (c\<lparr>errors := errors c @ [TooSmallMsg n' (opt_minBytes opts)]\<rparr>)) =
           holders c) \<and>
      (\<forall>b. GetDocument b \<notin> set (fst (renderPDFLazy e opts src c)))) \<and>
   (fetch e u = Inr res \<and> ok res \<and> content_length res = Some len \<and> 0 < len \<and>
    len < opt_minBytes opts \<longrightarrow>
      renderPDFLazy e opts (Url u) c =
        ([Fetch u],
         Undefined (removeLoader (c\<lparr>errors := errors c @ [TooSmallMsg len (opt_minBytes opts)]\<rparr>)))) \<and>
   opt_minBytes default_options = 5120"
proof (intro conjI impI allI)
  assume a: "n \<in> set (reported_sizes (fetch e) src) \<and> n < opt_minBytes opts"
  then obtain n' where n': "snd (toArrayBufferWithSize (fetch e) (opt_minBytes opts) src) =
      Inl (TooSmallMsg n' (opt_minBytes opts))"
    "n' \<in> set (reported_sizes (fetch e) src)" "n' < opt_minBytes opts"
    using loader_rejects [of n "fetch e" src "opt_minBytes opts"] by blast
  obtain fx where fx: "toArrayBufferWithSize (fetch e) (opt_minBytes opts) src =
      (fx, Inl (TooSmallMsg n' (opt_minBytes opts)))"
    using n'(1) by (cases "toArrayBufferWithSize (fetch e) (opt_minBytes opts) src") simp
  have r: "renderPDFLazy e opts src c = (fx, fatal (TooSmallMsg n' (opt_minBytes opts)) c)"
    by (rule lazy_loader_failure [OF fx])
  have "snd (renderPDFLazy e opts src c) =
      Undefined (removeLoader (c\<lparr>errors := errors c @ [TooSmallMsg n' (opt_minBytes opts)]\<rparr>)) \<and>
    holders (removeLoader (c\<lparr>errors := errors c @ [TooSmallMsg n' (opt_minBytes opts)]\<rparr>)) =
      holders c"
    unfolding r by (simp add: fatal_def too_small_text removeLoader_def)
  with n'(2,3) show "\<exists>n'. n' \<in> set (reported_sizes (fetch e) src) \<and> n' < opt_minBytes opts \<and>
         snd (renderPDFLazy e opts src c) =
           Undefined (removeLoader (c\<lparr>errors := errors c @ [TooSmallMsg n' (opt_minBytes opts)]\<rparr>)) \<and>
         holders (removeLoader (c\<lparr>errors := errors c @ [TooSmallMsg n' (opt_minBytes opts)]\<rparr>)) =
           holders c"
    by blast
  fix b
  have "fst (renderPDFLazy e opts src c) = fx" unfolding r by simp
  moreover have "fx = fst (toArrayBufferWithSize (fetch e) (opt_minBytes opts) src)"
    using fx by simp
  ultimately show "GetDocument b \<notin> set (fst (renderPDFLazy e opts src c))"
    using loader_no_document [of b "fetch e" "opt_minBytes opts" src] by simp
next
  assume "fetch e u = Inr res \<and> ok res \<and> content_length res = Some len \<and> 0 < len \<and>
    len < opt_minBytes opts"
  then have "toArrayBufferWithSize (fetch e) (opt_minBytes opts) (Url u) =
      ([Fetch u], Inl (TooSmallMsg len (opt_minBytes opts)))"
    by simp
  from lazy_loader_failure [OF this, of c]
  show "renderPDFLazy e opts (Url u) c =
        ([Fetch u],
         Undefined (removeLoader (c\<lparr>errors := errors c @ [TooSmallMsg len (opt_minBytes opts)]\<rparr>)))"
    by (simp add: fatal_def too_small_text)
next
  show "opt_minBytes default_options = 5120" by (simp add: default_options_def)
qed

theorem size_rejection_witness:
  "4096 \<in> set (reported_sizes (fetch two_env) (Url ''/doc.pdf'')) \<and>
   (4096::int) < opt_minBytes default_options \<and>
   fetch two_env ''/doc.pdf'' =
     Inr \<lparr>ok = True, status = 200, content_length = Some 4096, body = Inr (replicate 4096 0)\<rparr> \<and>
   renderPDFLazy two_env default_options (Url ''/doc.pdf'') loading =
     ([Fetch ''/doc.pdf''],
      Undefined \<lparr>loaders = 0, canvases = [], holders = [], errors = [TooSmallMsg 4096 5120]\<rparr>) \<and>
   GetDocument (replicate 4096 0) \<notin> set (fst (renderPDFLazy two_env default_options (Url ''/doc.pdf'') loading))"
proof -
  let ?res = "\<lparr>ok = True, status = 200, content_length = Some 4096, body = Inr (replicate 4096 0)\<rparr>"
  have f: "fetch two_env ''/doc.pdf'' = Inr ?res" by (simp add: two_env_def)
  have h: "4096 \<in> set (reported_sizes (fetch two_env) (Url ''/doc.pdf''))"
    "(4096::int) < opt_minBytes default_options"
    by (simp_all add: two_env_def default_options_def)
  have h2: "ok ?res" "content_length ?res = Some 4096" "(0::int) < 4096" by simp_all
  note a = size_rejection [where e = two_env and src = "Url ''/doc.pdf''" and n = 4096
      and opts = default_options and c = loading and u = "''/doc.pdf''" and res = ?res and len = 4096]
  from a h have 1: "GetDocument (replicate 4096 0) \<notin>
      set (fst (renderPDFLazy two_env default_options (Url ''/doc.pdf'') loading))"
    by blast
  from a f h h2 have "renderPDFLazy two_env default_options (Url ''/doc.pdf'') loading =
        ([Fetch ''/doc.pdf''],
         Undefined (removeLoader (loading\<lparr>errors := errors loading @
            [TooSmallMsg 4096 (opt_minBytes default_options)]\<rparr>)))"
    by blast
  then have 2: "renderPDFLazy two_env default_options (Url ''/doc.pdf'') loading =
     ([Fetch ''/doc.pdf''],
      Undefined \<lparr>loaders = 0, canvases = [], holders = [], errors = [TooSmallMsg 4096 5120]\<rparr>)"
    by (simp add: loading_def removeLoader_def default_options_def)
  from h f 2 1 show ?thesis by (intro conjI)
qed

section \<open>What renderPDFLazy resolves to\<close>

lemma fatal_undefined: "fatal err c \<noteq> Teardown s"
  by (simp add: fatal_def)

lemma lazy_cases:
  obtains (source) fx err where
      "toArrayBufferWithSize (fetch e) (opt_minBytes opts) src = (fx, Inl err)"
      "renderPDFLazy e opts src c = (fx, fatal err c)"
  | (document) fx data err where
      "toArrayBufferWithSize (fetch e) (opt_minBytes opts) src = (fx, Inr data)"
      "getDocument e data = Inl err"
      "renderPDFLazy e opts src c = (fx @ [GetDocument data], fatal err c)"
  | (first_page) fx data pdf err where
      "toArrayBufferWithSize (fetch e) (opt_minBytes opts) src = (fx, Inr data)"
      "getDocument e data = Inr pdf" "getPage pdf 1 = Inl err"
      "renderPDFLazy e opts src c = (fx @ [GetDocument data, GetPage 1], fatal err c)"
  | (observer) fx data pdf pg err where
      "toArrayBufferWithSize (fetch e) (opt_minBytes opts) src = (fx, Inr data)"
      "getDocument e data = Inr pdf" "getPage pdf 1 = Inr pg"
      "observer_error e (opt_rootMargin opts) = Some err"
      "renderPDFLazy e opts src c =
         (fx @ [GetDocument data, GetPage 1],
          fatal err (removeLoader (c\<lparr>holders := holders c @
             build_holders (height (pg (opt_scale opts)) / width (pg (opt_scale opts)))
               (numPages pdf)\<rparr>)))"
  | (handle) fx data pdf pg where
      "toArrayBufferWithSize (fetch e) (opt_minBytes opts) src = (fx, Inr data)"
      "getDocument e data = Inr pdf" "getPage pdf 1 = Inr pg"
      "observer_error e (opt_rootMargin opts) = None"
      "renderPDFLazy e opts src c =
         (fx @ [GetDocument data, GetPage 1,
                Observe (map data_page (holders c) @ [1..<Suc (numPages pdf)])],
          Teardown (new_sched (opt_concurrent opts) (opt_className opts)
            (removeLoader (removeLoader (c\<lparr>holders := holders c @
               build_holders (height (pg (opt_scale opts)) / width (pg (opt_scale opts)))
                 (numPages pdf)\<rparr>)))))"
proof -
  obtain fx r where l: "toArrayBufferWithSize (fetch e) (opt_minBytes opts) src = (fx, r)"
    by (cases "toArrayBufferWithSize (fetch e) (opt_minBytes opts) src")
  show thesis
  proof (cases r)
    case (Inl err)
    with l source show ?thesis by (simp add: renderPDFLazy_def)
  next
    case (Inr data)
    note data = this
    show ?thesis
    proof (cases "getDocument e data")
      case (Inl err)
      with l data document show ?thesis by (simp add: renderPDFLazy_def)
    next
      case (Inr pdf)
      note pdf = this
      show ?thesis
      proof (cases "getPage pdf 1")
        case (Inl err)
        with l data pdf first_page show ?thesis by (simp add: renderPDFLazy_def)
      next
        case (Inr pg)
        note pg = this
        show ?thesis
        proof (cases "observer_error e (opt_rootMargin opts)")
          case (Some err)
          with l data pdf pg observer [of fx data pdf pg err] show ?thesis
            by (simp add: renderPDFLazy_def Let_def)
        next
          case None
          with l data pdf pg handle [of fx data pdf pg] show ?thesis
            by (simp add: renderPDFLazy_def Let_def removeLoader_def pages_build_holders)
        qed
      qed
    qed
  qed
qed



text \<open>
  C9.  For a typed-array view the size that is checked is the byte length of the
  view, in the lazy variant and in the variant of pdf-preview.js alike; when the check
  passes, what is returned, and what \<^verbatim>\<open>getDocument\<close> is then called with, is the whole
  underlying buffer, whatever its length and whatever the offset of the view.
\<close>

theorem view_passes_whole_buffer:
  "(int (byteLength v) < opt_minBytes opts \<longrightarrow>
      toArrayBufferWithSize (fetch e) (opt_minBytes opts) (View v) =
        ([], Inl (TooSmallMsg (int (byteLength v)) (opt_minBytes opts))) \<and>
      toArrayBufferWithSize_preview (fetch e) (opt_minBytes opts) (View v) =
        ([RemoveLoader], Inl (TooSmallMsg (int (byteLength v)) (opt_minBytes opts)))) \<and>
   (opt_minBytes opts \<le> int (byteLength v) \<longrightarrow>
      toArrayBufferWithSize (fetch e) (opt_minBytes opts) (View v) = ([], Inr (buffer v)) \<and>
      toArrayBufferWithSize_preview (fetch e) (opt_minBytes opts) (View v) =
        ([RemoveLoader], Inr (buffer v, byteLength v)) \<and>
      take 1 (fst (renderPDFLazy e opts (View v) c)) = [GetDocument (buffer v)] \<and>
      fst (renderPDF_preview e draw opts (View v) c) = [RemoveLoader, GetDocument (buffer v)])"
proof (intro conjI impI)
  assume a: "opt_minBytes opts \<le> int (byteLength v)"
  then show l: "toArrayBufferWithSize (fetch e) (opt_minBytes opts) (View v) = ([], Inr (buffer v))"
    by simp
  from a show l': "toArrayBufferWithSize_preview (fetch e) (opt_minBytes opts) (View v) =
        ([RemoveLoader], Inr (buffer v, byteLength v))"
    by simp
  show "take 1 (fst (renderPDFLazy e opts (View v) c)) = [GetDocument (buffer v)]"
    using a by (cases e opts "View v" c rule: lazy_cases) auto
  show "fst (renderPDF_preview e draw opts (View v) c) = [RemoveLoader, GetDocument (buffer v)]"
    unfolding renderPDF_preview_def l' by (simp split: sum.splits prod.splits option.splits)
qed simp_all

theorem view_passes_whole_buffer_witness:
  "opt_minBytes default_options \<le> int (byteLength window) \<and>
   byteOffset window = 100 \<and> byteLength window = 5120 \<and> length (buffer window) = 10000 \<and>
   toArrayBufferWithSize (fetch two_env) (opt_minBytes default_options) (View window) =
     ([], Inr (replicate 10000 0)) \<and>
   take 1 (fst (renderPDFLazy two_env default_options (View window) loading)) =
     [GetDocument (replicate 10000 0)] \<and>
   fst (renderPDF_preview two_env (\<lambda>p. None) default_options (View window) loading) =
     [RemoveLoader, GetDocument (replicate 10000 0)] \<and>
   int (byteLength (window\<lparr>byteLength := 100\<rparr>)) < opt_minBytes default_options \<and>
   length (buffer (window\<lparr>byteLength := 100\<rparr>)) = 10000 \<and>
   toArrayBufferWithSize (fetch two_env) (opt_minBytes default_options)
       (View (window\<lparr>byteLength := 100\<rparr>)) = ([], Inl (TooSmallMsg 100 5120))"
proof -
  have h: "opt_minBytes default_options \<le> int (byteLength window)"
    and h': "int (byteLength (window\<lparr>byteLength := 100\<rparr>)) < opt_minBytes default_options"
    by (simp_all add: default_options_def window_def)
  have w: "byteOffset window = 100" "byteLength window = 5120" "length (buffer window) = 10000"
    "length (buffer (window\<lparr>byteLength := 100\<rparr>)) = 10000"
    and b: "buffer window = replicate 10000 0"
    by (simp_all add: window_def)
  note a = view_passes_whole_buffer [of window default_options two_env loading "\<lambda>p. None"]
  from a h have 1: "toArrayBufferWithSize (fetch two_env) (opt_minBytes default_options) (View window) =
     ([], Inr (replicate 10000 0))"
    and 2: "take 1 (fst (renderPDFLazy two_env default_options (View window) loading)) =
     [GetDocument (replicate 10000 0)]"
    and 3: "fst (renderPDF_preview two_env (\<lambda>p. None) default_options (View window) loading) =
     [RemoveLoader, GetDocument (replicate 10000 0)]"
    unfolding b by blast+
  from view_passes_whole_buffer [of "window\<lparr>byteLength := 100\<rparr>" default_options two_env
      loading "\<lambda>p. None"] h'
  have "toArrayBufferWithSize (fetch two_env) (opt_minBytes default_options)
       (View (window\<lparr>byteLength := 100\<rparr>)) =
     ([], Inl (TooSmallMsg (int (byteLength (window\<lparr>byteLength := 100\<rparr>)))
       (opt_minBytes default_options)))"
    by blast
  then have 4: "toArrayBufferWithSize (fetch two_env) (opt_minBytes default_options)
       (View (window\<lparr>byteLength := 100\<rparr>)) = ([], Inl (TooSmallMsg 100 5120))"
    by (simp add: default_options_def window_def)
  from h w(1,2,3) 1 2 3 h' w(4) 4 show ?thesis by (intro conjI)
qed

section \<open>The size of the placeholders\<close>

lemma build_holders_padding:
  assumes "h \<in> set (build_holders r n)"
  shows "paddingTop h = r * 100 \<and> content h = Blank \<and> \<not> rendered h \<and>
         (\<forall>own. Q own \<longrightarrow> (paddingTop h = own * 100 \<longleftrightarrow> own = r))"
proof -
  from assms have "paddingTop h = r * 100" "content h = Blank" "\<not> rendered h"
    by (auto simp: build_holders_def)
  then show ?thesis by auto
qed

lemma two_shapes_lazy:
  "renderPDFLazy two_env default_options (ArrayBuffer (replicate 6000 0)) loading =
     ([GetDocument (replicate 6000 0), GetPage 1, Observe [1, 2]],
      Teardown (new_sched 2 ''pdf-sheet''
        \<lparr>loaders = 0, canvases = [],
         holders = [\<lparr>data_page = 1, paddingTop = 400 / 3, content = Blank, rendered = False\<rparr>,
                    \<lparr>data_page = 2, paddingTop = 400 / 3, content = Blank, rendered = False\<rparr>],
         errors = []\<rparr>))"
  by (simp add: renderPDFLazy_def two_env_def two_shapes_def default_options_def loading_def
      removeLoader_def build_holders_def new_sched_def upt_rec)

text \<open>
  C7, as stated, fails.  The example document has an upright first page and a lying
  second page.  With the default options both placeholders get a sizer padding of
  400/3 percent, the ratio of the first page, while the ratio of the second page
  itself is 3/4, that is 75 percent.
\<close>

theorem second_page_gets_first_ratio:
  "snd (renderPDFLazy two_env default_options (ArrayBuffer (replicate 6000 0)) loading) =
     Teardown (new_sched 2 ''pdf-sheet''
        \<lparr>loaders = 0, canvases = [],
         holders = [\<lparr>data_page = 1, paddingTop = 400 / 3, content = Blank, rendered = False\<rparr>,
                    \<lparr>data_page = 2, paddingTop = 400 / 3, content = Blank, rendered = False\<rparr>],
         errors = []\<rparr>) \<and>
   own_ratio two_shapes (opt_scale default_options) 1 = Some (4 / 3) \<and>
   own_ratio two_shapes (opt_scale default_options) 2 = Some (3 / 4) \<and>
   (400 / 3 :: real) \<noteq> 3 / 4 * 100"
proof -
  have "own_ratio two_shapes (opt_scale default_options) 1 = Some (4 / 3)"
    and "own_ratio two_shapes (opt_scale default_options) 2 = Some (3 / 4)"
    by (simp_all add: own_ratio_def two_shapes_def default_options_def)
  then show ?thesis by (simp add: two_shapes_lazy)
qed

text \<open>
  C7, amended.  Whenever \<^verbatim>\<open>renderPDFLazy\<close> returns its handle, the document was opened
  and has a first page; the holders are those the container had, followed by one new
  holder for each page 1 to \<^verbatim>\<open>numPages\<close> in this order, each blank, not marked rendered
  and with the sizer padding taken from the aspect ratio of the first page at the
  configured scale; nothing is queued, in flight or started yet.  So the placeholder of
  a page has that page's own ratio exactly when the page has the ratio of page 1.
\<close>

theorem placeholders_use_first_ratio:
  assumes "snd (renderPDFLazy e opts src c) = Teardown s"
  shows "\<exists>data pdf first.
           snd (toArrayBufferWithSize (fetch e) (opt_minBytes opts) src) = Inr data \<and>
           getDocument e data = Inr pdf \<and>
           own_ratio pdf (opt_scale opts) 1 = Some first \<and>
           holders s = holders c @ build_holders first (numPages pdf) \<and>
           map data_page (build_holders first (numPages pdf)) = [1..<Suc (numPages pdf)] \<and>
           (\<forall>h \<in> set (build_holders first (numPages pdf)).
              paddingTop h = first * 100 \<and> content h = Blank \<and> \<not> rendered h \<and>
              (\<forall>own. own_ratio pdf (opt_scale opts) (data_page h) = Some own \<longrightarrow>
                 (paddingTop h = own * 100 \<longleftrightarrow> own = first))) \<and>
           queue s = [] \<and> inFlight s = {} \<and> started s = []"
proof (cases e opts src c rule: lazy_cases)
  case (handle fx data pdf pg)
  let ?first = "height (pg (opt_scale opts)) / width (pg (opt_scale opts))"
  from handle(5) assms have s: "s = new_sched (opt_concurrent opts) (opt_className opts)
      (removeLoader (removeLoader (c\<lparr>holders := holders c @ build_holders ?first (numPages pdf)\<rparr>)))"
    by simp
  have 1: "snd (toArrayBufferWithSize (fetch e) (opt_minBytes opts) src) = Inr data"
    using handle(1) by simp
  have 2: "own_ratio pdf (opt_scale opts) 1 = Some ?first"
    using handle(3) by (simp add: own_ratio_def)
  have 3: "holders s = holders c @ build_holders ?first (numPages pdf)"
    "queue s = []" "inFlight s = {}" "started s = []"
    unfolding s by (simp_all add: new_sched_def removeLoader_def)
  have 4: "\<forall>h \<in> set (build_holders ?first (numPages pdf)).
      paddingTop h = ?first * 100 \<and> content h = Blank \<and> \<not> rendered h \<and>
      (\<forall>own. own_ratio pdf (opt_scale opts) (data_page h) = Some own \<longrightarrow>
         (paddingTop h = own * 100 \<longleftrightarrow> own = ?first))"
    using build_holders_padding [of _ ?first "numPages pdf"] by blast
  from 1 handle(2) 2 3 4 pages_build_holders [of ?first "numPages pdf"] show ?thesis
    by blast
qed (use assms in \<open>simp_all add: fatal_def\<close>)

theorem placeholders_use_first_ratio_witness:
  "snd (renderPDFLazy two_env default_options (ArrayBuffer (replicate 6000 0)) loading) =
     Teardown (new_sched 2 ''pdf-sheet''
        \<lparr>loaders = 0, canvases = [],
         holders = [\<lparr>data_page = 1, paddingTop = 400 / 3, content = Blank, rendered = False\<rparr>,
                    \<lparr>data_page = 2, paddingTop = 400 / 3, content = Blank, rendered = False\<rparr>],
         errors = []\<rparr>) \<and>
   (\<exists>first. own_ratio two_shapes (opt_scale default_options) 1 = Some first \<and>
      holders (new_sched 2 ''pdf-sheet''
        \<lparr>loaders = 0, canvases = [],
         holders = [\<lparr>data_page = 1, paddingTop = 400 / 3, content = Blank, rendered = False\<rparr>,
                    \<lparr>data_page = 2, paddingTop = 400 / 3, content = Blank, rendered = False\<rparr>],
         errors = []\<rparr>) = holders loading @ build_holders first 2)"
proof -
  let ?s = "new_sched 2 ''pdf-sheet''
        \<lparr>loaders = 0, canvases = [],
         holders = [\<lparr>data_page = 1, paddingTop = 400 / 3, content = Blank, rendered = False\<rparr>,
                    \<lparr>data_page = 2, paddingTop = 400 / 3, content = Blank, rendered = False\<rparr>],
         errors = []\<rparr>"
  have r: "snd (renderPDFLazy two_env default_options (ArrayBuffer (replicate 6000 0)) loading) =
      Teardown ?s"
    by (simp add: two_shapes_lazy)
  from placeholders_use_first_ratio [OF r] obtain data pdf first where
    a: "getDocument two_env data = Inr pdf"
      "own_ratio pdf (opt_scale default_options) 1 = Some first"
      "holders ?s = holders loading @ build_holders first (numPages pdf)"
    by blast
  from a(1) have "pdf = two_shapes" by (simp add: two_env_def)
  with a(2,3) have "own_ratio two_shapes (opt_scale default_options) 1 = Some first \<and>
      holders ?s = holders loading @ build_holders first 2"
    by (simp add: two_shapes_def)
  then have "\<exists>first. own_ratio two_shapes (opt_scale default_options) 1 = Some first \<and>
      holders ?s = holders loading @ build_holders first 2" ..
  with r show ?thesis by (intro conjI)
qed

section \<open>Promise.all keeps the index order\<close>

text \<open>
  The state of \<^verbatim>\<open>Promise.all\<close> over \<open>n\<close> promises after those with the indices in \<open>done\<close>
  were fulfilled, promise \<open>i\<close> with \<open>cv i\<close>.
\<close>

lemma settle_all_fulfilled:
  fixes cv :: "nat \<Rightarrow> 'a"
  assumes "distinct order" "set order \<subseteq> {0..<n}"
  shows "fold (\<lambda>i. promise_all_settle i (Inr (cv i))) order (promise_all_new n) =
         \<lparr>slots = map (\<lambda>i. if i \<in> set order then Some (cv i) else None) [0..<n],
          remaining = n - length order,
          called = set order,
          settlement = (if length order = n then Some (Inr (map cv [0..<n])) else None)\<rparr>"
  using assms
proof (induction order rule: rev_induct)
  case Nil
  have "replicate n (None :: 'a option) = map (\<lambda>i. None) [0..<n]"
    by (simp add: map_replicate_const)
  then show ?case by (simp add: promise_all_new_def)
next
  case (snoc i order)
  let ?st = "\<lparr>slots = map (\<lambda>j. if j \<in> set order then Some (cv j) else None) [0..<n],
          remaining = n - length order,
          called = set order,
          settlement = (if length order = n then Some (Inr (map cv [0..<n])) else None)\<rparr>"
  from snoc.prems have d: "distinct order" "set order \<subseteq> {0..<n}" "i \<notin> set order" "i < n"
    by auto
  have len: "length order < n"
  proof -
    from d have "set order \<subset> {0..<n}" by auto
    then have "card (set order) < card {0..<n}" by (intro psubset_card_mono) simp_all
    with d(1) show ?thesis by (simp add: distinct_card)
  qed
  have st: "fold (\<lambda>i. promise_all_settle i (Inr (cv i))) order (promise_all_new n) = ?st"
    by (rule snoc.IH [OF d(1,2)])
  have upd: "(map (\<lambda>j. if j \<in> set order then Some (cv j) else None) [0..<n])[i := Some (cv i)] =
      map (\<lambda>j. if j \<in> set (order @ [i]) then Some (cv j) else None) [0..<n]"
    using d(4) by (auto simp: list_eq_iff_nth_eq nth_list_update)
  have full: "map (\<lambda>j. if j \<in> set (order @ [i]) then Some (cv j) else None) [0..<n] =
      map (\<lambda>j. Some (cv j)) [0..<n]" if "Suc (length order) = n"
  proof -
    from snoc.prems have "card (set (order @ [i])) = n"
      using that by (simp add: distinct_card del: set_append)
    with snoc.prems(2) have "set (order @ [i]) = {0..<n}"
      by (intro card_subset_eq) simp_all
    then show ?thesis by (auto simp del: set_append)
  qed
  have mf: "List.map_filter (\<lambda>v. v) (map (\<lambda>j. Some (cv j)) [0..<n]) = map cv [0..<n]"
    by (simp add: map_filter_def comp_def)
  show ?case
  proof (cases "Suc (length order) = n")
    case True
    with len d(3,4) show ?thesis
      unfolding fold_append comp_def st
      by (simp add: promise_all_settle_def upd full [OF True] mf del: set_append) simp_all
  next
    case False
    with len d(3,4) show ?thesis
      unfolding fold_append comp_def st
      by (simp add: promise_all_settle_def upd del: set_append) simp_all
  qed
qed

text \<open>Once \<^verbatim>\<open>Promise.all\<close> is rejected, it stays rejected with the same error.\<close>

lemma rejected_stays:
  "settlement st = Some (Inl e) \<Longrightarrow>
   settlement (fold (\<lambda>i. promise_all_settle i (r i)) order st) = Some (Inl e)"
proof (induction order arbitrary: st)
  case Nil
  then show ?case by simp
next
  case (Cons i order)
  from Cons.prems have "settlement (promise_all_settle i (r i) st) = Some (Inl e)"
    by (cases "r i") (simp_all add: promise_all_settle_def Let_def)
  then show ?case by (simp add: Cons.IH)
qed

text \<open>
  With a class name that is no class token every page promise rejects when the class
  is added, so as soon as one page promise has settled the function has left through
  its \<^verbatim>\<open>catch\<close> and nothing is appended.
\<close>

lemma invalid_class_appends_nothing:
  assumes "getDoc url = Inr pdf"
    and "\<forall>p \<in> {1..numPages pdf}. getPage pdf p = Inr (pg p)"
    and "\<not> valid_token cls"
    and "order = i # rest" "i < numPages pdf"
  shows "renderPDF_parallel getDoc draw scale cls url order c = Some (removeLoader c)"
proof -
  let ?n = "numPages pdf"
  let ?r = "\<lambda>i. page_task pdf scale cls draw i"
  from assms(2,5) have "getPage pdf (Suc i) = Inr (pg (Suc i))" by simp
  with assms(3) have "?r i = Inl (InvalidTokenMsg cls)" by (simp add: page_task_def)
  with assms(5) have "settlement (promise_all_settle i (?r i) (promise_all_new ?n)) =
      Some (Inl (InvalidTokenMsg cls))"
    by (simp add: promise_all_settle_def promise_all_new_def)
  then have "settlement (fold (\<lambda>i. promise_all_settle i (?r i)) rest
      (promise_all_settle i (?r i) (promise_all_new ?n))) = Some (Inl (InvalidTokenMsg cls))"
    by (rule rejected_stays)
  then show ?thesis
    unfolding renderPDF_parallel_def assms(4) using assms(1) by simp
qed

text \<open>
  C10.  In the parallel variant, let the document open, let the class name be a class
  token, and let every page be fetched and drawn without error.  Whatever the order
  in which the page promises settle: as long as one of them has not settled the
  function waits and has appended nothing, and once all have settled the container
  has got, after what it had, the canvases of pages 1 to \<^verbatim>\<open>numPages\<close> in ascending page
  order, and the loader is removed.
\<close>

theorem parallel_appends_in_page_order:
  assumes "getDoc url = Inr pdf"
    and "\<forall>p \<in> {1..numPages pdf}. getPage pdf p = Inr (pg p) \<and> draw p = None"
    and "valid_token cls"
    and "distinct order"
    and "set order \<subseteq> {0..<numPages pdf}"
  shows "renderPDF_parallel getDoc draw scale cls url order c =
           (if length order = numPages pdf
            then Some (removeLoader
                   (c\<lparr>canvases := canvases c @
                        map (\<lambda>p. make_canvas (pg p scale) cls) [1..<Suc (numPages pdf)]\<rparr>))
            else None)"
proof -
  let ?n = "numPages pdf"
  let ?cv = "\<lambda>i. make_canvas (pg (Suc i) scale) cls"
  have task: "page_task pdf scale cls draw i = Inr (?cv i)" if "i \<in> set order" for i
  proof -
    from that assms(5) have "Suc i \<in> {1..?n}" by auto
    with assms(2) have "getPage pdf (Suc i) = Inr (pg (Suc i))" "draw (Suc i) = None" by blast+
    with assms(3) show ?thesis by (simp add: page_task_def)
  qed
  have "fold (\<lambda>i. promise_all_settle i (page_task pdf scale cls draw i)) order (promise_all_new ?n) =
        fold (\<lambda>i. promise_all_settle i (Inr (?cv i))) order (promise_all_new ?n)"
    by (rule fold_cong) (simp_all add: task)
  also have "\<dots> =
      \<lparr>slots = map (\<lambda>i. if i \<in> set order then Some (?cv i) else None) [0..<?n],
       remaining = ?n - length order,
       called = set order,
       settlement = (if length order = ?n then Some (Inr (map ?cv [0..<?n])) else None)\<rparr>"
    by (rule settle_all_fulfilled [OF assms(4,5)])
  finally have st: "settlement
      (fold (\<lambda>i. promise_all_settle i (page_task pdf scale cls draw i)) order (promise_all_new ?n)) =
      (if length order = ?n then Some (Inr (map ?cv [0..<?n])) else None)"
    by simp
  have "map ?cv [0..<?n] = map (\<lambda>p. make_canvas (pg p scale) cls) (map Suc [0..<?n])"
    by (simp add: comp_def)
  also have "map Suc [0..<?n] = [1..<Suc ?n]"
    by (simp only: map_Suc_upt One_nat_def)
  finally have pages: "map ?cv [0..<?n] = map (\<lambda>p. make_canvas (pg p scale) cls) [1..<Suc ?n]" .
  show ?thesis
    unfolding renderPDF_parallel_def using assms(1) by (simp add: st pages)
qed

theorem parallel_appends_in_page_order_witness:
  "getPage two_shapes 1 = Inr (\<lambda>sc. \<lparr>width = 600 * sc, height = 800 * sc\<rparr>) \<and>
   getPage two_shapes 2 = Inr (\<lambda>sc. \<lparr>width = 800 * sc, height = 600 * sc\<rparr>) \<and>
   valid_token ''pdf-sheet'' \<and>
   distinct [1, 0 :: nat] \<and> set [1, 0 :: nat] \<subseteq> {0..<numPages two_shapes} \<and>
   renderPDF_parallel (\<lambda>u. Inr two_shapes) (\<lambda>p. None) (3 / 2) ''pdf-sheet'' ''/doc.pdf'' [1, 0]
       loading =
     Some \<lparr>loaders = 0,
           canvases = [\<lparr>canvas_width = 900, canvas_height = 1200, canvas_class = ''pdf-sheet''\<rparr>,
                       \<lparr>canvas_width = 1200, canvas_height = 900, canvas_class = ''pdf-sheet''\<rparr>],
           holders = [], errors = []\<rparr> \<and>
   renderPDF_parallel (\<lambda>u. Inr two_shapes) (\<lambda>p. None) (3 / 2) ''pdf-sheet'' ''/doc.pdf'' [1]
       loading = None"
proof -
  let ?pg = "\<lambda>p sc. if p = (1::nat) then \<lparr>width = 600 * sc, height = 800 * sc\<rparr>
                      else \<lparr>width = 800 * sc, height = 600 * sc\<rparr>"
  let ?getDoc = "\<lambda>u :: string. Inr two_shapes :: error + pdfdoc"
  let ?draw = "\<lambda>p :: page. None :: error option"
  have g: "getPage two_shapes 1 = Inr (\<lambda>sc. \<lparr>width = 600 * sc, height = 800 * sc\<rparr>)"
    "getPage two_shapes 2 = Inr (\<lambda>sc. \<lparr>width = 800 * sc, height = 600 * sc\<rparr>)"
    by (simp_all add: two_shapes_def)
  have n: "numPages two_shapes = 2" by (simp add: two_shapes_def)
  have d: "?getDoc ''/doc.pdf'' = Inr two_shapes" by simp
  have a: "\<forall>p \<in> {1..numPages two_shapes}. getPage two_shapes p = Inr (?pg p) \<and> ?draw p = None"
    by (auto simp: two_shapes_def)
  have v: "valid_token ''pdf-sheet''"
    by (simp add: valid_token_def ascii_whitespace_def)
  have o: "distinct [1, 0 :: nat]" "set [1, 0 :: nat] \<subseteq> {0..<numPages two_shapes}"
    "distinct [1 :: nat]" "set [1 :: nat] \<subseteq> {0..<numPages two_shapes}"
    by (simp_all add: n)
  from parallel_appends_in_page_order [of ?getDoc "''/doc.pdf''" two_shapes ?pg ?draw
      "''pdf-sheet''" "[1, 0]" "3 / 2" loading, OF d a v o(1,2)]
  have 1: "renderPDF_parallel ?getDoc ?draw (3 / 2) ''pdf-sheet'' ''/doc.pdf'' [1, 0] loading =
     Some \<lparr>loaders = 0,
           canvases = [\<lparr>canvas_width = 900, canvas_height = 1200, canvas_class = ''pdf-sheet''\<rparr>,
                       \<lparr>canvas_width = 1200, canvas_height = 900, canvas_class = ''pdf-sheet''\<rparr>],
           holders = [], errors = []\<rparr>"
    by (simp add: n loading_def removeLoader_def make_canvas_def canvas_size_def integer_part_def
        upt_rec)
  from parallel_appends_in_page_order [of ?getDoc "''/doc.pdf''" two_shapes ?pg ?draw
      "''pdf-sheet''" "[1]" "3 / 2" loading, OF d a v o(3,4)]
  have 2: "renderPDF_parallel ?getDoc ?draw (3 / 2) ''pdf-sheet'' ''/doc.pdf'' [1] loading = None"
    by (simp add: n)
  from g v o(1,2) 1 2 show ?thesis by (intro conjI)
qed

end
